theory Spec2Isabelle
  imports Main "HOL-Library.Word"
begin

unbundle bit_operations_syntax

section \<open>The bitmap tree of \<^verbatim>\<open>bitmap_tree.hpp\<close>\<close>

text \<open>
  The header defines \<^verbatim>\<open>node_t<T>\<close> and \<^verbatim>\<open>tree_t<T>\<close> for an unsigned word type
  \<^verbatim>\<open>T\<close>. The word type is \<open>'a word\<close> here, its width \<open>LENGTH('a)\<close> is the constant
  \<^verbatim>\<open>bits_per_word = branching_factor = sizeof(T) * 8\<close>. The fields \<^verbatim>\<open>levels\<close>,
  \<^verbatim>\<open>allocated_resources\<close>, \<^verbatim>\<open>current_max_size\<close> and every index are \<^verbatim>\<open>u64_t\<close>: natural
  numbers, with the wrap-around modulo \<open>2 ^ 64\<close> written out where the code computes.
\<close>

subsection \<open>Machine arithmetic\<close>

definition u64 :: "nat \<Rightarrow> nat" where
  "u64 n = n mod 2 ^ 64"

text \<open>\<^verbatim>\<open>current_level--\<close> on a \<^verbatim>\<open>u64_t\<close>: zero wraps to the largest value.\<close>

definition u64_dec :: "nat \<Rightarrow> nat" where
  "u64_dec n = (if n = 0 then 2 ^ 64 - 1 else n - 1)"

text \<open>
  The conversion of a \<^verbatim>\<open>u64_t\<close> argument to the parameter type \<^verbatim>\<open>T\<close>
  (\<^verbatim>\<open>move_max_size(T idx)\<close> called with a \<^verbatim>\<open>u64_t\<close>).
\<close>

definition to_T :: "'a::len word itself \<Rightarrow> nat \<Rightarrow> nat" where
  "to_T _ n = n mod 2 ^ LENGTH('a)"

text \<open>
  The model reads \<^verbatim>\<open>T\<close> as \<^verbatim>\<open>uint32_t\<close> or \<^verbatim>\<open>uint64_t\<close>, the two widths the
  specification names; at these widths C++ performs no integer promotion in
  \<^verbatim>\<open>~T(0)\<close> and \<^verbatim>\<open>T(1) << bit\<close>, so the operations are those of \<open>'a word\<close>.
\<close>

definition unsigned_integral :: "'a::len word itself \<Rightarrow> bool" where
  "unsigned_integral _ \<longleftrightarrow> LENGTH('a) = 32 \<or> LENGTH('a) = 64"

text \<open>\<^verbatim>\<open>set_bit\<close>, \<^verbatim>\<open>clear_bit\<close> and \<^verbatim>\<open>test_bit\<close> of the header.\<close>

definition set_bit_T :: "'a::len word \<Rightarrow> nat \<Rightarrow> 'a word" where
  "set_bit_T n b = n OR push_bit b 1"

definition clear_bit_T :: "'a::len word \<Rightarrow> nat \<Rightarrow> 'a word" where
  "clear_bit_T n b = n AND NOT (push_bit b 1)"

definition test_bit_T :: "'a::len word \<Rightarrow> nat \<Rightarrow> bool" where
  "test_bit_T n b \<longleftrightarrow> n AND push_bit b 1 \<noteq> 0"

subsection \<open>Nodes and trees\<close>

text \<open>
  \<^verbatim>\<open>node_t\<close> is a struct with the flag \<^verbatim>\<open>is_leaf\<close> and a union of \<^verbatim>\<open>bits\<close> and
  \<^verbatim>\<open>branches\<close>: a datatype with one constructor for each value of the flag. Nodes come
  from \<^verbatim>\<open>malloc\<close>, so a field the code has not assigned holds no value: \<open>None\<close> for
  \<^verbatim>\<open>unset_branches\<close> and for a branch pointer. The lists stand for the two
  \<^verbatim>\<open>std::array\<close>s of \<^verbatim>\<open>branching_factor\<close> entries. A leaf's \<^verbatim>\<open>allocated_branches\<close> is
  never assigned and never read, and has no field here.
\<close>

datatype 'T node_t =
    Leaf (unset_branches: "'T option") (bits: "'T list")
  | Internal (unset_branches: "'T option") (allocated_branches: "'T")
      (branches: "'T node_t option list")

record 'T tree_t =
  root :: "'T node_t"
  levels :: nat
  allocated_resources :: nat
  current_max_size :: nat

definition init_leaf :: "'a::len word node_t" where
  "init_leaf = Leaf (Some (NOT 0)) (replicate LENGTH('a) (NOT 0))"

text \<open>The constructor \<^verbatim>\<open>tree_t::tree_t()\<close>.\<close>

definition tree_t_new :: "'a::len word tree_t" where
  "tree_t_new =
     \<lparr>root = init_leaf, levels = 0, allocated_resources = 0,
      current_max_size = u64 (LENGTH('a) * LENGTH('a))\<rparr>"

subsection \<open>Growth: \<^verbatim>\<open>move_max_size\<close>\<close>

text \<open>
  One turn of the \<^verbatim>\<open>while\<close> loop of \<^verbatim>\<open>move_max_size\<close>: a new root above the old one.
  Reading the old root's \<^verbatim>\<open>unset_branches\<close> when it was never assigned has no defined
  result (\<open>None\<close>).
\<close>

definition new_root :: "'a::len word tree_t \<Rightarrow> 'a word tree_t option" where
  "new_root t =
     (case unset_branches (root t) of
        None \<Rightarrow> None
      | Some ub \<Rightarrow>
          Some \<lparr>root =
                  Internal (Some (if ub = NOT 0 then NOT 0 else NOT 1)) 1
                    ((replicate LENGTH('a) None)[0 := Some (root t)]),
                levels = u64 (levels t + 1),
                allocated_resources = allocated_resources t,
                current_max_size = u64 (current_max_size t * LENGTH('a))\<rparr>)"

text \<open>
  The loop itself. The product can wrap around, after which the loop condition may hold
  for ever: not returning is the value \<open>None\<close>.
\<close>

partial_function (option) move_max_size ::
  "'a::len word tree_t \<Rightarrow> nat \<Rightarrow> 'a word tree_t option" where
  "move_max_size t idx =
     (if current_max_size t \<le> idx
      then (case new_root t of None \<Rightarrow> None | Some t' \<Rightarrow> move_max_size t' idx)
      else Some t)"

declare move_max_size.simps [code]

subsection \<open>The descent of \<^verbatim>\<open>allocate_at\<close>\<close>

text \<open>The node \<^verbatim>\<open>allocate_at\<close> creates below a node visited at \<^verbatim>\<open>current_level\<close>.\<close>

definition new_node :: "nat \<Rightarrow> 'a::len word node_t" where
  "new_node current_level =
     (if current_level = 0 then init_leaf
      else Internal None 0 (replicate LENGTH('a) None))"

fun rank :: "'T node_t \<Rightarrow> nat" where
  "rank (Leaf ub bs) = 0"
| "rank (Internal ub ab brs) =
     Suc (sum_list (map (\<lambda>b. case b of None \<Rightarrow> 0 | Some c \<Rightarrow> rank c) brs))"

lemma rank_nth:
  assumes "i < length brs" and "brs ! i = Some c"
  shows "rank c < rank (Internal ub ab brs)"
proof -
  have "case_option 0 rank (brs ! i) \<in> set (map (case_option 0 rank) brs)"
    using assms(1) by (metis length_map nth_map nth_mem)
  then have "case_option 0 rank (brs ! i) \<le> sum_list (map (case_option 0 rank) brs)"
    by (simp add: member_le_sum_list)
  then show ?thesis
    using assms(2) by simp
qed

lemma rank_Internal_pos: "0 < rank (Internal ub ab brs)"
  by simp

lemma rank_new_node:
  "rank (new_node 0 :: 'a::len word node_t) = 0"
  "0 < lvl \<Longrightarrow> rank (new_node lvl :: 'a::len word node_t) = Suc 0"
  by (simp_all add: new_node_def init_leaf_def)

text \<open>
  The \<^verbatim>\<open>for(;;)\<close> loop of \<^verbatim>\<open>allocate_at\<close>, from \<^verbatim>\<open>current_node\<close> down; it returns the
  node as the loop leaves it and the new value of \<^verbatim>\<open>allocated_resources\<close>. The cases
  in which the C++ has no defined result are \<open>None\<close>: a division by a zero
  \<^verbatim>\<open>subtree_size\<close>, an index outside \<^verbatim>\<open>bits\<close> or \<^verbatim>\<open>branches\<close>, a shift by the width of
  \<^verbatim>\<open>T\<close> or more, and a branch pointer that was never assigned. A list shorter than the
  array it stands for is no value of the C++ type, and gives \<open>None\<close> as well. The
  termination order is the \<open>rank\<close> of the node, then \<^verbatim>\<open>current_level\<close>: below a node it
  has just created the loop creates every further node, one for each level that is left.
\<close>

function allocate_at_loop ::
  "'a::len word node_t \<Rightarrow> nat \<Rightarrow> nat \<Rightarrow> nat \<Rightarrow> nat \<Rightarrow> ('a word node_t \<times> nat) option" where
  "allocate_at_loop current_node subtree_size current_level idx allocated =
    (let subtree_size' = subtree_size div LENGTH('a) in
     if subtree_size' = 0 then None
     else
       let bucket = idx div subtree_size'; idx' = idx mod subtree_size' in
       if LENGTH('a) \<le> bucket then None
       else
         (case current_node of
            Leaf ub bs \<Rightarrow>
              if LENGTH('a) \<le> idx' \<or> length bs \<le> bucket then None
              else
                Some (Leaf ub (bs[bucket := clear_bit_T (bs ! bucket) idx']),
                      if test_bit_T (bs ! bucket) idx' then u64 (allocated + 1)
                      else allocated)
          | Internal ub ab brs \<Rightarrow>
              if length brs \<le> bucket then None
              else
                let ab' = (if \<not> test_bit_T ab bucket then set_bit_T ab bucket else ab);
                    brs' = (if \<not> test_bit_T ab bucket
                            then brs[bucket := Some (new_node current_level)] else brs)
                in
                  (case brs' ! bucket of
                     None \<Rightarrow> None
                   | Some c \<Rightarrow>
                       (case allocate_at_loop c subtree_size' (u64_dec current_level)
                               idx' allocated of
                          None \<Rightarrow> None
                        | Some (c', allocated') \<Rightarrow>
                            Some (Internal ub ab' (brs'[bucket := Some c']), allocated')))))"
  by pat_completeness auto
termination
proof (relation "(\<lambda>(n, ss, lvl, idx, a). rank n) <*mlex*> measure (\<lambda>(n, ss, lvl, idx, a). lvl)",
    goal_cases)
  case 1
  show ?case by (simp add: wf_mlex)
next
  case (2 current_node subtree_size current_level idx allocated ss' bucket idx' ub ab brs ab' brs' c)
  have pos: "0 < rank (Internal ub ab brs)"
    by (rule rank_Internal_pos)
  have bucket: "bucket < length brs"
    using 2 by simp
  show ?case
  proof (cases "test_bit_T ab bucket")
    case True
    with 2 have "brs ! bucket = Some c"
      by simp
    then have "rank c < rank (Internal ub ab brs)"
      using bucket by (rule rank_nth [rotated])
    with 2 show ?thesis
      by (simp add: mlex_iff)
  next
    case False
    with 2 bucket have c: "c = new_node current_level"
      by simp
    show ?thesis
    proof (cases "current_level = 0")
      case True
      with c pos 2 show ?thesis
        by (simp add: mlex_iff rank_new_node del: rank.simps)
    next
      case False
      with c pos 2 show ?thesis
        by (auto simp add: mlex_iff rank_new_node u64_dec_def simp del: rank.simps)
    qed
  qed
qed

declare allocate_at_loop.simps [simp del]

text \<open>\<^verbatim>\<open>tree_t::allocate_at\<close>.\<close>

definition allocate_at :: "'a::len word tree_t \<Rightarrow> nat \<Rightarrow> 'a word tree_t option" where
  "allocate_at t idx =
     (case (if current_max_size t \<le> idx then move_max_size t (to_T TYPE('a word) idx)
            else Some t) of
        None \<Rightarrow> None
      | Some t' \<Rightarrow>
          (case allocate_at_loop (root t') (current_max_size t') (levels t') idx
                  (allocated_resources t') of
             None \<Rightarrow> None
           | Some (r, allocated) \<Rightarrow>
               Some (t'\<lparr>root := r, allocated_resources := allocated\<rparr>)))"

subsection \<open>\<^verbatim>\<open>is_allocated\<close>, \<^verbatim>\<open>allocate\<close> and \<^verbatim>\<open>deallocate\<close>\<close>

text \<open>
  The loop of \<^verbatim>\<open>is_allocated\<close>. The method is \<^verbatim>\<open>const\<close> and writes nothing: it is a
  function of the tree that returns the answer only.
\<close>

function is_allocated_loop :: "'a::len word node_t \<Rightarrow> nat \<Rightarrow> nat \<Rightarrow> bool option" where
  "is_allocated_loop current_node subtree_size idx =
    (let subtree_size' = subtree_size div LENGTH('a) in
     if subtree_size' = 0 then None
     else
       let bucket = idx div subtree_size'; idx' = idx mod subtree_size' in
       if LENGTH('a) \<le> bucket then None
       else
         (case current_node of
            Leaf ub bs \<Rightarrow>
              if LENGTH('a) \<le> idx' \<or> length bs \<le> bucket then None
              else Some (\<not> test_bit_T (bs ! bucket) idx')
          | Internal ub ab brs \<Rightarrow>
              if length brs \<le> bucket then None
              else if \<not> test_bit_T ab bucket then Some False
              else
                (case brs ! bucket of
                   None \<Rightarrow> None
                 | Some c \<Rightarrow> is_allocated_loop c subtree_size' idx')))"
  by pat_completeness auto
termination
proof (relation "measure (\<lambda>(n, ss, idx). rank n)", goal_cases)
  case 1
  show ?case by simp
next
  case (2 current_node subtree_size idx ss' bucket idx' ub ab brs c)
  then have "bucket < length brs" and "brs ! bucket = Some c"
    by simp_all
  then have "rank c < rank (Internal ub ab brs)"
    by (rule rank_nth)
  with 2 show ?case
    by simp
qed

declare is_allocated_loop.simps [simp del]

definition is_allocated :: "'a::len word tree_t \<Rightarrow> nat \<Rightarrow> bool option" where
  "is_allocated t idx =
     (if current_max_size t \<le> idx then Some False
      else is_allocated_loop (root t) (current_max_size t) idx)"

text \<open>
  \<^verbatim>\<open>allocate\<close> consists of \<^verbatim>\<open>return T();\<close> and \<^verbatim>\<open>deallocate\<close> has an empty body: they
  return the tree as they found it.
\<close>

definition allocate :: "'a::len word tree_t \<Rightarrow> 'a word \<times> 'a word tree_t" where
  "allocate t = (0, t)"

definition deallocate :: "'a::len word tree_t \<Rightarrow> 'a word \<Rightarrow> 'a word tree_t" where
  "deallocate t idx = t"

section \<open>Invariant and reachable trees\<close>

subsection \<open>Capacity and shape\<close>

text \<open>\<open>cap h\<close> is \<open>B ^ h\<close> for the branching factor \<open>B\<close> of the word type.\<close>

definition cap :: "'a::len word itself \<Rightarrow> nat \<Rightarrow> nat" where
  "cap _ h = LENGTH('a) ^ h"

text \<open>
  \<open>shape h n\<close>: the loops enter \<open>n\<close> with \<^verbatim>\<open>subtree_size = B ^ (h + 1)\<close> and, when \<open>n\<close>
  is internal, with \<^verbatim>\<open>current_level = h - 1\<close>. The first leaf of a tree is entered with
  \<open>h = 1\<close> and uses all \<open>B\<close> bits of its \<open>B\<close> words; a leaf that \<^verbatim>\<open>allocate_at\<close> creates
  is entered with \<open>h = 0\<close> (the level counter has reached zero one node earlier) and uses
  bit 0 of each word. Every branch whose bit is set in \<^verbatim>\<open>allocated_branches\<close> holds a
  node.
\<close>

primrec shape :: "nat \<Rightarrow> 'a::len word node_t \<Rightarrow> bool" where
  "shape 0 n =
     (case n of Leaf ub bs \<Rightarrow> length bs = LENGTH('a) | Internal ub ab brs \<Rightarrow> False)"
| "shape (Suc h) n =
     (case n of
        Leaf ub bs \<Rightarrow> h = 0 \<and> length bs = LENGTH('a)
      | Internal ub ab brs \<Rightarrow>
          length brs = LENGTH('a) \<and>
          (\<forall>i<LENGTH('a). test_bit_T ab i \<longrightarrow>
             (case brs ! i of None \<Rightarrow> False | Some c \<Rightarrow> shape h c)))"

text \<open>The number of nodes of a tree: one for every \<^verbatim>\<open>malloc\<close> that built it.\<close>

fun nodes :: "'T node_t \<Rightarrow> nat" where
  "nodes (Leaf ub bs) = 1"
| "nodes (Internal ub ab brs) =
     Suc (sum_list (map (\<lambda>b. case b of None \<Rightarrow> 0 | Some c \<Rightarrow> nodes c) brs))"

text \<open>The child the loop of \<^verbatim>\<open>allocate_at\<close> moves to, once it is materialised.\<close>

definition child_at ::
  "nat \<Rightarrow> 'a::len word \<Rightarrow> 'a word node_t option list \<Rightarrow> nat \<Rightarrow> 'a word node_t option" where
  "child_at lvl ab brs bucket = (if bit ab bucket then brs ! bucket else Some (new_node lvl))"

subsection \<open>The invariant of the tree\<close>

definition tree_inv :: "'a::len word tree_t \<Rightarrow> bool" where
  "tree_inv t \<longleftrightarrow>
     current_max_size t = cap TYPE('a word) (levels t + 2) \<and>
     current_max_size t < 2 ^ 64 \<and>
     shape (Suc (levels t)) (root t) \<and>
     unset_branches (root t) = Some (NOT 0) \<and>
     allocated_resources t = card {i. is_allocated t i = Some True}"

text \<open>What growth does to a tree: new roots only.\<close>

definition grows_to :: "'a::len word tree_t \<Rightarrow> 'a word tree_t \<Rightarrow> bool" where
  "grows_to t y \<longleftrightarrow>
     tree_inv y \<and> levels t \<le> levels y \<and> current_max_size t \<le> current_max_size y \<and>
     nodes (root y) = nodes (root t) + (levels y - levels t) \<and>
     allocated_resources y = allocated_resources t \<and>
     (\<forall>i. is_allocated y i = is_allocated t i)"

subsection \<open>Public operations and reachable trees\<close>

text \<open>
  One returning call of a public operation that can write to the tree
  (\<^verbatim>\<open>is_allocated\<close> is \<^verbatim>\<open>const\<close>). A tree is reachable when calls lead to it from the
  tree the constructor builds.
\<close>

inductive step :: "'a::len word tree_t \<Rightarrow> 'a word tree_t \<Rightarrow> bool" where
  step_allocate_at: "allocate_at t idx = Some t' \<Longrightarrow> step t t'"
| step_allocate: "allocate t = (idx, t') \<Longrightarrow> step t t'"
| step_deallocate: "deallocate t idx = t' \<Longrightarrow> step t t'"

definition reachable :: "'a::len word tree_t \<Rightarrow> bool" where
  "reachable t \<longleftrightarrow> step\<^sup>*\<^sup>* tree_t_new t"

text \<open>
  One turn of the loop of \<^verbatim>\<open>move_max_size\<close> as a relation: the trees on which the growth
  routine performs a wrap are those that turns of the loop reach from a reachable tree.
\<close>

definition wrap :: "'a::len word tree_t \<Rightarrow> 'a word tree_t \<Rightarrow> bool" where
  "wrap t t' \<longleftrightarrow> new_root t = Some t'"

text \<open>
  A caller that allocates a list of indices one after the other, as the loop in the
  repository's benchmark does.
\<close>

fun allocate_at_each :: "'a::len word tree_t \<Rightarrow> nat list \<Rightarrow> 'a word tree_t option" where
  "allocate_at_each t [] = Some t"
| "allocate_at_each t (idx # idxs) =
     (case allocate_at t idx of None \<Rightarrow> None | Some t' \<Rightarrow> allocate_at_each t' idxs)"

subsection \<open>The specification's notions\<close>

text \<open>
  The specification's account of \<^verbatim>\<open>is_allocated\<close>, in its words: false when the index
  is at or beyond the capacity or when a branch on the path from the root to the leaf is
  unmaterialised, otherwise the negation of the leaf bit. The path is followed by the
  height of the node, \<open>Suc (levels t)\<close> at the root; \<open>leaf_bit_on_path\<close> is \<open>None\<close> when a
  branch on the path is unmaterialised.
\<close>

primrec leaf_bit_on_path :: "nat \<Rightarrow> 'a::len word node_t \<Rightarrow> nat \<Rightarrow> bool option" where
  "leaf_bit_on_path 0 n idx =
     (case n of
        Leaf ub bs \<Rightarrow> Some (bit (bs ! (idx div LENGTH('a) ^ 0)) (idx mod LENGTH('a) ^ 0))
      | Internal ub ab brs \<Rightarrow> None)"
| "leaf_bit_on_path (Suc h) n idx =
     (case n of
        Leaf ub bs \<Rightarrow> Some (bit (bs ! (idx div LENGTH('a) ^ Suc h)) (idx mod LENGTH('a) ^ Suc h))
      | Internal ub ab brs \<Rightarrow>
          (if bit ab (idx div LENGTH('a) ^ Suc h)
           then (case brs ! (idx div LENGTH('a) ^ Suc h) of
                   None \<Rightarrow> None
                 | Some c \<Rightarrow> leaf_bit_on_path h c (idx mod LENGTH('a) ^ Suc h))
           else None))"

definition is_allocated_spec :: "'a::len word tree_t \<Rightarrow> nat \<Rightarrow> bool" where
  "is_allocated_spec t idx =
     (if current_max_size t \<le> idx then False
      else (case leaf_bit_on_path (Suc (levels t)) (root t) idx of
              None \<Rightarrow> False
            | Some b \<Rightarrow> \<not> b))"

text \<open>
  The specification's invariant of the free summary, at the root: bit \<open>i\<close> of the
  root's \<^verbatim>\<open>unset_branches\<close> is set exactly when branch \<open>i\<close>, the indices from
  \<open>i * (capacity div B)\<close> up to \<open>(i + 1) * (capacity div B)\<close>, holds an index that is not
  allocated.
\<close>

definition branch_has_free :: "'a::len word tree_t \<Rightarrow> nat \<Rightarrow> bool" where
  "branch_has_free t i \<longleftrightarrow>
     list_ex (\<lambda>j. is_allocated t (i * (current_max_size t div LENGTH('a)) + j) \<noteq> Some True)
       [0..<current_max_size t div LENGTH('a)]"

definition root_summary_ok :: "'a::len word tree_t \<Rightarrow> bool" where
  "root_summary_ok t \<longleftrightarrow>
     (case unset_branches (root t) of
        None \<Rightarrow> False
      | Some w \<Rightarrow> list_all (\<lambda>i. test_bit_T w i = branch_has_free t i) [0..<LENGTH('a)])"

section \<open>Properties of the model\<close>

subsection \<open>Bits and bucket arithmetic\<close>

lemma test_bit_T_iff: "test_bit_T w n \<longleftrightarrow> bit w n"
  unfolding test_bit_T_def
  by (metis and_exp_eq_0_iff_not_bit push_bit_of_1)

lemma bit_set_bit_T:
  "bit (set_bit_T (w::'a::len word) i) j \<longleftrightarrow> bit w j \<or> (i = j \<and> j < LENGTH('a))"
  unfolding set_bit_T_def
  by (auto simp add: bit_simps)

lemma bit_clear_bit_T: "bit (clear_bit_T (w::'a::len word) i) j \<longleftrightarrow> bit w j \<and> i \<noteq> j"
  unfolding clear_bit_T_def
  by (auto simp add: bit_simps dest: bit_imp_le_length)

lemma set_bit_T_idem: "bit w i \<Longrightarrow> set_bit_T w i = w"
  by (rule bit_eqI) (auto simp add: bit_set_bit_T)

lemma clear_bit_T_idem: "\<not> bit w i \<Longrightarrow> clear_bit_T w i = w"
  by (rule bit_eqI) (auto simp add: bit_clear_bit_T)

lemma bit_ones: "bit (NOT 0 :: 'a::len word) j \<longleftrightarrow> j < LENGTH('a)"
  by (simp add: bit_simps)

lemma bit_one_word: "bit (1 :: 'a::len word) j \<longleftrightarrow> j = 0"
  by (simp add: bit_simps)

text \<open>Bucket arithmetic at a subtree of size \<open>cap (Suc h)\<close>.\<close>

lemma cap_Suc_div [simp]: "cap TYPE('a::len word) (Suc h) div LENGTH('a) = cap TYPE('a word) h"
  by (simp add: cap_def)

lemma cap_pos [simp]: "0 < cap TYPE('a::len word) h"
  by (simp add: cap_def)

lemma cap_neq_0 [simp]: "cap TYPE('a::len word) h \<noteq> 0"
  by (simp add: cap_def)

lemma cap_0 [simp]: "cap TYPE('a::len word) 0 = 1"
  by (simp add: cap_def)

lemma cap_1: "cap TYPE('a::len word) (Suc 0) = LENGTH('a)"
  by (simp add: cap_def)

lemma cap_Suc: "cap TYPE('a::len word) (Suc h) = LENGTH('a) * cap TYPE('a word) h"
  by (simp add: cap_def)

lemma bucket_less:
  "idx < cap TYPE('a::len word) (Suc h) \<Longrightarrow> idx div cap TYPE('a word) h < LENGTH('a)"
  by (simp add: cap_def less_mult_imp_div_less mult.commute)

lemma cap_le_1: "h \<le> 1 \<Longrightarrow> cap TYPE('a::len word) h \<le> LENGTH('a)"
  by (cases h) (simp_all add: cap_def Suc_leI)

lemma is_allocated_loop_Leaf:
  assumes "length bs = LENGTH('a)" "h \<le> 1" "idx < cap TYPE('a word) (Suc h)"
  shows "is_allocated_loop (Leaf ub bs :: 'a::len word node_t) (cap TYPE('a word) (Suc h)) idx =
           Some (\<not> bit (bs ! (idx div cap TYPE('a word) h)) (idx mod cap TYPE('a word) h))"
proof -
  have b: "idx div cap TYPE('a word) h < LENGTH('a)"
    using assms(3) by (rule bucket_less)
  have m: "idx mod cap TYPE('a word) h < LENGTH('a)"
    using cap_le_1 [OF assms(2), where 'a = 'a] cap_pos [where 'a = 'a and h = h]
    by (meson less_le_trans mod_less_divisor)
  show ?thesis
    using b m assms(1)
    by (subst is_allocated_loop.simps [of "Leaf ub bs"]) (simp add: Let_def test_bit_T_iff)
qed

lemma is_allocated_loop_Internal:
  assumes "length brs = LENGTH('a)" "idx < cap TYPE('a word) (Suc h)"
  shows "is_allocated_loop (Internal ub ab brs :: 'a::len word node_t) (cap TYPE('a word) (Suc h)) idx =
           (if \<not> bit ab (idx div cap TYPE('a word) h) then Some False
            else case brs ! (idx div cap TYPE('a word) h) of
                   None \<Rightarrow> None
                 | Some c \<Rightarrow> is_allocated_loop c (cap TYPE('a word) h) (idx mod cap TYPE('a word) h))"
proof -
  have b: "idx div cap TYPE('a word) h < LENGTH('a)"
    using assms(2) by (rule bucket_less)
  show ?thesis
    using b assms(1)
    by (subst is_allocated_loop.simps [of "Internal ub ab brs"]) (simp add: Let_def test_bit_T_iff)
qed

lemma allocate_at_loop_Leaf:
  assumes "length bs = LENGTH('a)" "h \<le> 1" "idx < cap TYPE('a word) (Suc h)"
  shows "allocate_at_loop (Leaf ub bs :: 'a::len word node_t) (cap TYPE('a word) (Suc h)) lvl idx a =
           Some (Leaf ub (bs[idx div cap TYPE('a word) h :=
                    clear_bit_T (bs ! (idx div cap TYPE('a word) h)) (idx mod cap TYPE('a word) h)]),
                 if bit (bs ! (idx div cap TYPE('a word) h)) (idx mod cap TYPE('a word) h)
                 then u64 (a + 1) else a)"
proof -
  have b: "idx div cap TYPE('a word) h < LENGTH('a)"
    using assms(3) by (rule bucket_less)
  have m: "idx mod cap TYPE('a word) h < LENGTH('a)"
    using cap_le_1 [OF assms(2), where 'a = 'a] cap_pos [where 'a = 'a and h = h]
    by (meson less_le_trans mod_less_divisor)
  show ?thesis
    using b m assms(1)
    by (subst allocate_at_loop.simps [of "Leaf ub bs"]) (simp add: Let_def test_bit_T_iff)
qed

lemma allocate_at_loop_Internal:
  assumes "length brs = LENGTH('a)" "idx < cap TYPE('a word) (Suc h)"
  shows "allocate_at_loop (Internal ub ab brs :: 'a::len word node_t) (cap TYPE('a word) (Suc h)) lvl idx a =
           (case child_at lvl ab brs (idx div cap TYPE('a word) h) of
              None \<Rightarrow> None
            | Some c \<Rightarrow>
                (case allocate_at_loop c (cap TYPE('a word) h) (u64_dec lvl) (idx mod cap TYPE('a word) h) a of
                   None \<Rightarrow> None
                 | Some (c', a') \<Rightarrow>
                     Some (Internal ub (set_bit_T ab (idx div cap TYPE('a word) h))
                             (brs[idx div cap TYPE('a word) h := Some c']), a')))"
proof -
  have b: "idx div cap TYPE('a word) h < LENGTH('a)"
    using assms(2) by (rule bucket_less)
  show ?thesis
    using b assms(1)
    by (subst allocate_at_loop.simps [of "Internal ub ab brs"])
      (simp add: Let_def test_bit_T_iff child_at_def set_bit_T_idem split: option.splits)
qed

subsection \<open>The loop of \<^verbatim>\<open>allocate_at\<close> on a well-shaped subtree\<close>

lemma lvl_next: "0 < k \<longrightarrow> u64_dec k = k - 1"
  by (simp add: u64_dec_def)

lemma shape_new_node: "shape h (new_node h :: 'a::len word node_t)"
  by (cases h) (simp_all add: new_node_def init_leaf_def test_bit_T_iff)

lemma is_allocated_loop_new_node:
  assumes "idx < cap TYPE('a word) (Suc h)"
  shows "is_allocated_loop (new_node h :: 'a::len word node_t) (cap TYPE('a word) (Suc h)) idx = Some False"
proof (cases h)
  case 0
  have "idx div cap TYPE('a word) 0 < LENGTH('a)"
    using assms 0 by (simp add: cap_1)
  then show ?thesis
    using assms 0
    by (simp add: new_node_def init_leaf_def is_allocated_loop_Leaf bit_ones)
next
  case (Suc k)
  then show ?thesis
    using assms by (simp add: new_node_def is_allocated_loop_Internal)
qed

lemma nodes_new_node: "nodes (new_node h :: 'a::len word node_t) = 1"
proof -
  have "sum_list (map (case_option 0 nodes) (replicate n None)) = 0" for n
    by (induction n) simp_all
  then show ?thesis
    by (simp add: new_node_def init_leaf_def)
qed

lemma shape_child_at:
  assumes "shape (Suc h) (Internal ub ab brs :: 'a::len word node_t)" "bucket < LENGTH('a)"
  obtains c where "child_at h ab brs bucket = Some c" "shape h c"
proof (cases "bit ab bucket")
  case True
  with assms have "case brs ! bucket of None \<Rightarrow> False | Some c \<Rightarrow> shape h c"
    by (simp add: test_bit_T_iff)
  then obtain c where "brs ! bucket = Some c" "shape h c"
    by (cases "brs ! bucket") simp_all
  with True that show ?thesis
    by (simp add: child_at_def)
next
  case False
  with that [of "new_node h"] show ?thesis
    by (simp add: child_at_def shape_new_node)
qed

lemma shape_Internal_update:
  assumes "shape (Suc h) (Internal ub ab brs :: 'a::len word node_t)" "bucket < LENGTH('a)" "shape h c'"
  shows "shape (Suc h) (Internal ub (set_bit_T ab bucket) (brs[bucket := Some c']))"
  using assms by (auto simp add: test_bit_T_iff bit_set_bit_T nth_list_update)

lemma shape_Leaf_iff: "shape h (Leaf ub bs :: 'a::len word node_t) \<longleftrightarrow> h \<le> 1 \<and> length bs = LENGTH('a)"
  by (cases h) auto

text \<open>On a well-shaped subtree the loop of \<^verbatim>\<open>allocate_at\<close> returns.\<close>

lemma allocate_at_loop_Some:
  assumes "shape h (n :: 'a::len word node_t)" "idx < cap TYPE('a word) (Suc h)" "0 < h \<longrightarrow> lvl = h - 1"
  shows "\<exists>n' a'. allocate_at_loop n (cap TYPE('a word) (Suc h)) lvl idx a = Some (n', a') \<and>
           shape h n' \<and> unset_branches n' = unset_branches n"
  using assms
proof (induction h arbitrary: n idx lvl)
  case 0
  then obtain ub bs where n: "n = Leaf ub bs" "length bs = LENGTH('a)"
    by (cases n) simp_all
  with 0 show ?case
    by (simp add: allocate_at_loop_Leaf)
next
  case (Suc k)
  show ?case
  proof (cases n)
    case (Leaf ub bs)
    with Suc.prems have "Suc k \<le> 1" "length bs = LENGTH('a)"
      by (simp_all add: shape_Leaf_iff)
    with Suc.prems Leaf show ?thesis
      by (simp add: allocate_at_loop_Leaf shape_Leaf_iff)
  next
    case (Internal ub ab brs)
    let ?M = "cap TYPE('a word) (Suc k)"
    let ?b = "idx div ?M"
    have len: "length brs = LENGTH('a)" and lvl: "lvl = k"
      using Suc.prems Internal by simp_all
    have b: "?b < LENGTH('a)"
      using Suc.prems(2) by (rule bucket_less)
    obtain c where c: "child_at k ab brs ?b = Some c" "shape k c"
      using Suc.prems(1) b unfolding Internal by (rule shape_child_at)
    have "idx mod ?M < ?M"
      by simp
    with c(2) obtain c' a' where
      c': "allocate_at_loop c ?M (u64_dec k) (idx mod ?M) a = Some (c', a')" "shape k c'"
      using Suc.IH [of c "idx mod ?M" "u64_dec k"] lvl_next [of k] by blast
    have "shape (Suc k) (Internal ub (set_bit_T ab ?b) (brs[?b := Some c']))"
      using Suc.prems(1) b c'(2) unfolding Internal by (rule shape_Internal_update)
    then show ?thesis
      using c c' len Suc.prems(2)
      by (simp add: Internal lvl allocate_at_loop_Internal)
  qed
qed

text \<open>What a returning loop below an internal node did.\<close>

lemma allocate_at_loop_Internal_E:
  assumes "shape (Suc k) (Internal ub ab brs :: 'a::len word node_t)"
    and "idx < cap TYPE('a word) (Suc (Suc k))"
    and "allocate_at_loop (Internal ub ab brs) (cap TYPE('a word) (Suc (Suc k))) k idx a = Some (n', a')"
  obtains c c' where
    "child_at k ab brs (idx div cap TYPE('a word) (Suc k)) = Some c"
    "shape k c"
    "allocate_at_loop c (cap TYPE('a word) (Suc k)) (u64_dec k) (idx mod cap TYPE('a word) (Suc k)) a = Some (c', a')"
    "n' = Internal ub (set_bit_T ab (idx div cap TYPE('a word) (Suc k)))
            (brs[idx div cap TYPE('a word) (Suc k) := Some c'])"
proof -
  let ?M = "cap TYPE('a word) (Suc k)"
  let ?b = "idx div ?M"
  have len: "length brs = LENGTH('a)"
    using assms(1) by simp
  have b: "?b < LENGTH('a)"
    using assms(2) by (rule bucket_less)
  obtain c where c: "child_at k ab brs ?b = Some c" "shape k c"
    using assms(1) b by (rule shape_child_at)
  from assms(3) c(1) len assms(2) obtain c' where
    "allocate_at_loop c ?M (u64_dec k) (idx mod ?M) a = Some (c', a')"
    "n' = Internal ub (set_bit_T ab ?b) (brs[?b := Some c'])"
    by (auto simp add: allocate_at_loop_Internal split: option.splits)
  with c that show ?thesis
    by blast
qed

lemma div_mod_eqD:
  "(j::nat) div M = i div M \<Longrightarrow> j mod M = i mod M \<Longrightarrow> j = i"
  by (metis div_mult_mod_eq)

text \<open>After the loop the index is allocated and no other index has changed.\<close>

lemma allocate_at_loop_lookup:
  assumes "shape h (n :: 'a::len word node_t)" "idx < cap TYPE('a word) (Suc h)"
    and "0 < h \<longrightarrow> lvl = h - 1"
    and "allocate_at_loop n (cap TYPE('a word) (Suc h)) lvl idx a = Some (n', a')"
    and "j < cap TYPE('a word) (Suc h)"
  shows "is_allocated_loop n' (cap TYPE('a word) (Suc h)) j =
           (if j = idx then Some True else is_allocated_loop n (cap TYPE('a word) (Suc h)) j)"
  using assms
proof (induction h arbitrary: n idx lvl n' j)
  case 0
  then obtain ub bs where n: "n = Leaf ub bs" "length bs = LENGTH('a)"
    by (cases n) simp_all
  from 0 have "idx < LENGTH('a)" "j < LENGTH('a)"
    by (simp_all add: cap_1)
  with 0 n show ?case
    by (auto simp add: allocate_at_loop_Leaf is_allocated_loop_Leaf bit_clear_bit_T nth_list_update)
next
  case (Suc k)
  let ?M = "cap TYPE('a word) (Suc k)"
  show ?case
  proof (cases n)
    case (Leaf ub bs)
    with Suc.prems have k: "Suc k \<le> 1" and len: "length bs = LENGTH('a)"
      by (simp_all add: shape_Leaf_iff)
    have "idx div ?M < LENGTH('a)" "j div ?M < LENGTH('a)"
      using Suc.prems by (simp_all add: bucket_less)
    with Suc.prems(2,4,5) k len show ?thesis
      unfolding Leaf
      by (auto simp add: allocate_at_loop_Leaf is_allocated_loop_Leaf bit_clear_bit_T
          nth_list_update dest: div_mod_eqD)
  next
    case (Internal ub ab brs)
    let ?b = "idx div ?M"
    have lvl: "lvl = k"
      using Suc.prems by simp
    have len: "length brs = LENGTH('a)"
      using Suc.prems(1) Internal by simp
    have b: "?b < LENGTH('a)" "j div ?M < LENGTH('a)"
      using Suc.prems by (simp_all add: bucket_less)
    obtain c c' where c: "child_at k ab brs ?b = Some c" "shape k c"
      and c': "allocate_at_loop c ?M (u64_dec k) (idx mod ?M) a = Some (c', a')"
      and n': "n' = Internal ub (set_bit_T ab ?b) (brs[?b := Some c'])"
      using Suc.prems(1,2,4) unfolding Internal lvl by (rule allocate_at_loop_Internal_E)
    have IH: "is_allocated_loop c' ?M (j mod ?M) =
        (if j mod ?M = idx mod ?M then Some True else is_allocated_loop c ?M (j mod ?M))"
      using c(2) _ lvl_next c' by (rule Suc.IH) simp_all
    have old: "is_allocated_loop c ?M (j mod ?M) = is_allocated_loop n (cap TYPE('a word) (Suc (Suc k))) j"
      if "j div ?M = ?b"
    proof (cases "bit ab ?b")
      case True
      with c(1) that len Suc.prems(5) show ?thesis
        by (simp add: Internal is_allocated_loop_Internal child_at_def)
    next
      case False
      with c(1) that len Suc.prems(5) show ?thesis
        by (auto simp add: Internal is_allocated_loop_Internal child_at_def is_allocated_loop_new_node)
    qed
    show ?thesis
    proof (cases "j div ?M = ?b")
      case True
      with IH old b len Suc.prems(5) show ?thesis
        by (auto simp add: n' is_allocated_loop_Internal bit_set_bit_T dest: div_mod_eqD)
    next
      case False
      then have "j \<noteq> idx"
        by auto
      with False b len Suc.prems(5) show ?thesis
        by (simp add: n' Internal is_allocated_loop_Internal bit_set_bit_T)
    qed
  qed
qed

text \<open>The counter moves by one exactly when the index was free.\<close>

lemma allocate_at_loop_count:
  assumes "shape h (n :: 'a::len word node_t)" "idx < cap TYPE('a word) (Suc h)"
    and "0 < h \<longrightarrow> lvl = h - 1"
    and "allocate_at_loop n (cap TYPE('a word) (Suc h)) lvl idx a = Some (n', a')"
  shows "a' = (if is_allocated_loop n (cap TYPE('a word) (Suc h)) idx = Some True then a
               else u64 (a + 1))"
  using assms
proof (induction h arbitrary: n idx lvl n')
  case 0
  then obtain ub bs where n: "n = Leaf ub bs" "length bs = LENGTH('a)"
    by (cases n) simp_all
  with 0 show ?case
    by (auto simp add: allocate_at_loop_Leaf is_allocated_loop_Leaf)
next
  case (Suc k)
  let ?M = "cap TYPE('a word) (Suc k)"
  show ?case
  proof (cases n)
    case (Leaf ub bs)
    with Suc.prems have k: "Suc k \<le> 1" and len: "length bs = LENGTH('a)"
      by (simp_all add: shape_Leaf_iff)
    with Suc.prems(2,4) show ?thesis
      unfolding Leaf
      by (auto simp add: allocate_at_loop_Leaf is_allocated_loop_Leaf)
  next
    case (Internal ub ab brs)
    let ?b = "idx div ?M"
    have lvl: "lvl = k"
      using Suc.prems by simp
    have len: "length brs = LENGTH('a)"
      using Suc.prems(1) Internal by simp
    obtain c c' where c: "child_at k ab brs ?b = Some c" "shape k c"
      and c': "allocate_at_loop c ?M (u64_dec k) (idx mod ?M) a = Some (c', a')"
      using Suc.prems(1,2,4) unfolding Internal lvl by (rule allocate_at_loop_Internal_E)
    have IH: "a' = (if is_allocated_loop c ?M (idx mod ?M) = Some True then a else u64 (a + 1))"
      using c(2) _ lvl_next c' by (rule Suc.IH) simp
    show ?thesis
    proof (cases "bit ab ?b")
      case True
      with c(1) len Suc.prems(2) IH show ?thesis
        by (simp add: Internal is_allocated_loop_Internal child_at_def)
    next
      case False
      with c(1) len Suc.prems(2) IH show ?thesis
        by (auto simp add: Internal is_allocated_loop_Internal child_at_def is_allocated_loop_new_node)
    qed
  qed
qed

text \<open>On an allocated index the loop changes nothing.\<close>

lemma allocate_at_loop_noop:
  assumes "shape h (n :: 'a::len word node_t)" "idx < cap TYPE('a word) (Suc h)"
    and "0 < h \<longrightarrow> lvl = h - 1"
    and "is_allocated_loop n (cap TYPE('a word) (Suc h)) idx = Some True"
  shows "allocate_at_loop n (cap TYPE('a word) (Suc h)) lvl idx a = Some (n, a)"
  using assms
proof (induction h arbitrary: n idx lvl)
  case 0
  then obtain ub bs where n: "n = Leaf ub bs" "length bs = LENGTH('a)"
    by (cases n) simp_all
  with 0 show ?case
    by (auto simp add: allocate_at_loop_Leaf is_allocated_loop_Leaf clear_bit_T_idem)
next
  case (Suc k)
  let ?M = "cap TYPE('a word) (Suc k)"
  show ?case
  proof (cases n)
    case (Leaf ub bs)
    with Suc.prems have k: "Suc k \<le> 1" and len: "length bs = LENGTH('a)"
      by (simp_all add: shape_Leaf_iff)
    with Suc.prems(2,4) show ?thesis
      unfolding Leaf
      by (auto simp add: allocate_at_loop_Leaf is_allocated_loop_Leaf clear_bit_T_idem)
  next
    case (Internal ub ab brs)
    let ?b = "idx div ?M"
    have lvl: "lvl = k"
      using Suc.prems by simp
    have len: "length brs = LENGTH('a)"
      using Suc.prems(1) Internal by simp
    have b: "?b < LENGTH('a)"
      using Suc.prems by (simp add: bucket_less)
    from Suc.prems(2,4) len have bit: "bit ab ?b"
      unfolding Internal by (auto simp add: is_allocated_loop_Internal split: if_splits)
    with Suc.prems(2,4) len obtain c where c: "brs ! ?b = Some c"
      and look: "is_allocated_loop c ?M (idx mod ?M) = Some True"
      unfolding Internal by (auto simp add: is_allocated_loop_Internal split: option.splits)
    from Suc.prems(1) b bit c have "shape k c"
      unfolding Internal by (auto simp add: test_bit_T_iff)
    then have "allocate_at_loop c ?M (u64_dec k) (idx mod ?M) a = Some (c, a)"
      using _ lvl_next look by (rule Suc.IH) simp
    moreover have "brs[?b := Some c] = brs"
      using c [symmetric] by (simp add: list_update_id)
    ultimately show ?thesis
      using bit c len Suc.prems(2)
      by (simp add: Internal lvl allocate_at_loop_Internal child_at_def set_bit_T_idem)
  qed
qed

text \<open>The loop creates at most one node at each level below its starting node.\<close>

lemma sum_list_update_eq:
  fixes xs :: "nat list"
  assumes "i < length xs"
  shows "sum_list (xs[i := y]) + xs ! i = sum_list xs + y"
proof -
  have "xs ! i \<le> sum_list xs"
    using assms by (rule elem_le_sum_list)
  then show ?thesis
    using assms by (simp add: sum_list_update)
qed

lemma allocate_at_loop_nodes:
  assumes "shape h (n :: 'a::len word node_t)" "idx < cap TYPE('a word) (Suc h)"
    and "0 < h \<longrightarrow> lvl = h - 1"
    and "allocate_at_loop n (cap TYPE('a word) (Suc h)) lvl idx a = Some (n', a')"
  shows "nodes n' \<le> nodes n + h"
  using assms
proof (induction h arbitrary: n idx lvl n')
  case 0
  then obtain ub bs where n: "n = Leaf ub bs" "length bs = LENGTH('a)"
    by (cases n) simp_all
  with 0 show ?case
    by (auto simp add: allocate_at_loop_Leaf)
next
  case (Suc k)
  let ?M = "cap TYPE('a word) (Suc k)"
  show ?case
  proof (cases n)
    case (Leaf ub bs)
    with Suc.prems have k: "Suc k \<le> 1" and len: "length bs = LENGTH('a)"
      by (simp_all add: shape_Leaf_iff)
    with Suc.prems(2,4) show ?thesis
      unfolding Leaf
      by (auto simp add: allocate_at_loop_Leaf)
  next
    case (Internal ub ab brs)
    let ?b = "idx div ?M"
    let ?f = "case_option 0 nodes :: 'a word node_t option \<Rightarrow> nat"
    have lvl: "lvl = k"
      using Suc.prems by simp
    have len: "length brs = LENGTH('a)"
      using Suc.prems(1) Internal by simp
    have b: "?b < LENGTH('a)"
      using Suc.prems by (simp add: bucket_less)
    obtain c c' where c: "child_at k ab brs ?b = Some c" "shape k c"
      and c': "allocate_at_loop c ?M (u64_dec k) (idx mod ?M) a = Some (c', a')"
      and n': "n' = Internal ub (set_bit_T ab ?b) (brs[?b := Some c'])"
      using Suc.prems(1,2,4) unfolding Internal lvl by (rule allocate_at_loop_Internal_E)
    have IH: "nodes c' \<le> nodes c + k"
      using c(2) _ lvl_next c' by (rule Suc.IH) simp
    have upd: "sum_list (map ?f (brs[?b := Some c'])) + ?f (brs ! ?b) = sum_list (map ?f brs) + nodes c'"
      using b len sum_list_update_eq [of ?b "map ?f brs" "nodes c'"]
      by (simp add: map_update)
    have "nodes c \<le> ?f (brs ! ?b) + 1"
      using c(1) by (auto simp add: child_at_def nodes_new_node split: if_splits)
    with IH upd show ?thesis
      by (simp add: n' Internal)
  qed
qed

subsection \<open>Growth\<close>

lemma u64_id: "n < 2 ^ 64 \<Longrightarrow> u64 n = n"
  by (simp add: u64_def)

lemma unsigned_integral_ge2: "unsigned_integral TYPE('a::len word) \<Longrightarrow> 2 \<le> LENGTH('a)"
  by (auto simp add: unsigned_integral_def)

lemma cap_mono: "h \<le> k \<Longrightarrow> cap TYPE('a::len word) h \<le> cap TYPE('a word) k"
  by (simp add: cap_def power_increasing Suc_leI)

lemma cap_ge_pow2:
  assumes "unsigned_integral TYPE('a::len word)"
  shows "2 ^ h \<le> cap TYPE('a word) h"
  using unsigned_integral_ge2 [OF assms] by (simp add: cap_def power_mono)

lemma cap_small_exp:
  assumes "unsigned_integral TYPE('a::len word)" "cap TYPE('a word) h < 2 ^ 64"
  shows "h < 64"
proof -
  have "(2::nat) ^ h < 2 ^ 64"
    using cap_ge_pow2 [OF assms(1), of h] assms(2) by simp
  then show ?thesis
    by (rule power_less_imp_less_exp [rotated]) simp
qed

lemma cap_overflow:
  assumes "unsigned_integral TYPE('a::len word)" "2 ^ 64 \<le> cap TYPE('a word) h"
  shows "u64 (cap TYPE('a word) h) = 0"
proof -
  have "LENGTH('a) = 2 ^ 5 \<or> LENGTH('a) = 2 ^ 6"
    using assms(1) by (simp add: unsigned_integral_def)
  then obtain m where m: "LENGTH('a) = 2 ^ m"
    by blast
  then have c: "cap TYPE('a word) h = 2 ^ (m * h)"
    by (simp add: cap_def power_mult)
  with assms(2) have "(2::nat) ^ 64 \<le> 2 ^ (m * h)"
    by simp
  then have "64 \<le> m * h"
    by (rule power_le_imp_le_exp [rotated]) simp
  then have "(2::nat) ^ 64 dvd 2 ^ (m * h)"
    by (rule le_imp_power_dvd)
  then show ?thesis
    by (simp add: u64_def c)
qed

lemma is_allocated_bound: "is_allocated t i = Some True \<Longrightarrow> i < current_max_size t"
  by (auto simp add: is_allocated_def split: if_splits)

lemma finite_allocated: "finite {i. is_allocated t i = Some True}"
proof (rule finite_subset)
  show "{i. is_allocated t i = Some True} \<subseteq> {..<current_max_size t}"
    by (auto dest: is_allocated_bound)
qed simp

lemma nodes_wrap:
  "0 < n \<Longrightarrow> sum_list (map (case_option 0 nodes) ((replicate n None)[0 := Some r])) = nodes r"
proof -
  have z: "sum_list (map (case_option 0 nodes) (replicate m None)) = 0" for m
    by (induction m) simp_all
  show "0 < n \<Longrightarrow> ?thesis"
    by (cases n) (simp_all add: z)
qed

text \<open>One wrap of a tree that satisfies the invariant, when the product does not overflow.\<close>

lemma new_root_grows:
  assumes inv: "tree_inv (t :: 'a::len word tree_t)" and ui: "unsigned_integral TYPE('a word)"
    and no: "current_max_size t * LENGTH('a) < 2 ^ 64"
  obtains t' where "new_root t = Some t'" "grows_to t t'" "levels t' = Suc (levels t)"
    "current_max_size t' = current_max_size t * LENGTH('a)"
proof -
  let ?l = "levels t"
  let ?r = "Internal (Some (NOT 0)) 1 ((replicate LENGTH('a) None)[0 := Some (root t)]) :: 'a word node_t"
  let ?t = "\<lparr>root = ?r, levels = Suc ?l, allocated_resources = allocated_resources t,
             current_max_size = current_max_size t * LENGTH('a)\<rparr>"
  have cms: "current_max_size t = cap TYPE('a word) (?l + 2)" and small: "current_max_size t < 2 ^ 64"
    and sh: "shape (Suc ?l) (root t)" and ub: "unset_branches (root t) = Some (NOT 0)"
    and cnt: "allocated_resources t = card {i. is_allocated t i = Some True}"
    using inv by (simp_all add: tree_inv_def)
  have "?l + 2 < 64"
    using ui small unfolding cms by (rule cap_small_exp)
  then have l: "u64 (Suc ?l) = Suc ?l"
    by (simp add: u64_def)
  have nr: "new_root t = Some ?t"
    using no by (simp add: new_root_def ub l u64_id)
  have cms': "current_max_size t * LENGTH('a) = cap TYPE('a word) (Suc (?l + 2))"
    by (simp add: cms cap_Suc)
  have sh': "shape (Suc (Suc ?l)) ?r"
    using sh by (auto simp add: test_bit_T_iff bit_one_word)
  have look: "is_allocated ?t i = is_allocated t i" for i
  proof (cases "i < current_max_size t")
    case True
    then have "i < cap TYPE('a word) (Suc (?l + 2))"
      using cap_mono [of "?l + 2" "Suc (?l + 2)", where 'a = 'a] cms by simp
    moreover have "i div cap TYPE('a word) (?l + 2) = 0" "i mod cap TYPE('a word) (?l + 2) = i"
      using True cms by simp_all
    ultimately show ?thesis
      using True
      by (simp add: is_allocated_def cms' is_allocated_loop_Internal bit_one_word)
        (simp add: cms)
  next
    case False
    then have "i div cap TYPE('a word) (?l + 2) \<noteq> 0"
      using cms by (simp add: div_eq_0_iff)
    with False show ?thesis
      by (cases "i < cap TYPE('a word) (Suc (?l + 2))")
        (simp_all add: is_allocated_def cms' is_allocated_loop_Internal bit_one_word)
  qed
  have "{i. is_allocated ?t i = Some True} = {i. is_allocated t i = Some True}"
    by (simp only: look)
  then have "tree_inv ?t"
    unfolding tree_inv_def using no sh' cnt by (simp add: cms')
  moreover have "current_max_size t \<le> current_max_size t * LENGTH('a)"
    by (simp add: Suc_leI)
  moreover have "\<forall>i. is_allocated ?t i = is_allocated t i"
    using look by blast
  ultimately have "grows_to t ?t"
    unfolding grows_to_def by (simp add: nodes_wrap)
  with nr show ?thesis
    by (rule that) simp_all
qed

lemma grows_to_refl: "tree_inv t \<Longrightarrow> grows_to t t"
  by (simp add: grows_to_def)

lemma grows_to_trans: "grows_to t u \<Longrightarrow> grows_to u v \<Longrightarrow> grows_to t v"
  by (auto simp add: grows_to_def)

text \<open>Once the capacity has wrapped to zero the loop never leaves.\<close>

lemma new_root_cms:
  "new_root t = Some t' \<Longrightarrow>
     current_max_size t' = u64 (current_max_size t * LENGTH('a)) \<and>
     (levels t' = u64 (levels t + 1))"
  for t :: "'a::len word tree_t"
  by (auto simp add: new_root_def split: option.splits)

lemma move_max_size_partial:
  fixes t :: "'a::len word tree_t"
  assumes "move_max_size t idx = Some y"
  shows "current_max_size t \<noteq> 0 \<and>
         (tree_inv t \<longrightarrow> unsigned_integral TYPE('a word) \<longrightarrow>
            grows_to t y \<and> idx < current_max_size y)"
proof (rule move_max_size.raw_induct [where P = "\<lambda>t idx y. current_max_size t \<noteq> 0 \<and>
         (tree_inv t \<longrightarrow> unsigned_integral TYPE('a word) \<longrightarrow>
            grows_to t y \<and> idx < current_max_size y)", OF _ assms], goal_cases)
  case (1 f t idx y)
  show ?case
  proof (cases "current_max_size t \<le> idx")
    case False
    with 1(2) have "y = t" and "idx < current_max_size t" and "current_max_size t \<noteq> 0"
      by simp_all
    then show ?thesis
      by (simp add: grows_to_refl)
  next
    case True
    with 1(2) obtain t' where t': "new_root t = Some t'" "f t' idx = Some y"
      by (auto split: option.splits)
    from 1(1) [OF t'(2)] have nz: "current_max_size t' \<noteq> 0"
      and IH: "tree_inv t' \<Longrightarrow> unsigned_integral TYPE('a word) \<Longrightarrow>
                 grows_to t' y \<and> idx < current_max_size y"
      by simp_all
    have "current_max_size t \<noteq> 0"
    proof
      assume "current_max_size t = 0"
      with new_root_cms [OF t'(1)] have "current_max_size t' = 0"
        by (simp add: u64_def)
      with nz show False
        by simp
    qed
    moreover have "grows_to t y \<and> idx < current_max_size y"
      if inv: "tree_inv t" and ui: "unsigned_integral TYPE('a word)"
    proof (cases "current_max_size t * LENGTH('a) < 2 ^ 64")
      case True
      with inv ui obtain t'' where "new_root t = Some t''" "grows_to t t''"
        by (rule new_root_grows)
      with t'(1) have g: "grows_to t t'"
        by simp
      then have "tree_inv t'"
        by (simp add: grows_to_def)
      with IH ui g show ?thesis
        by (blast intro: grows_to_trans)
    next
      case False
      from inv have "current_max_size t * LENGTH('a) = cap TYPE('a word) (Suc (levels t + 2))"
        by (simp add: tree_inv_def cap_Suc)
      with False ui have "u64 (current_max_size t * LENGTH('a)) = 0"
        by (simp add: cap_overflow)
      with nz new_root_cms [OF t'(1)] show ?thesis
        by simp
    qed
    ultimately show ?thesis
      by blast
  qed
qed

lemma move_max_size_total:
  fixes t :: "'a::len word tree_t"
  assumes "tree_inv t" "unsigned_integral TYPE('a word)"
    and "idx < cap TYPE('a word) k" "cap TYPE('a word) k < 2 ^ 64"
  shows "\<exists>y. move_max_size t idx = Some y"
  using assms(1)
proof (induction "k - levels t" arbitrary: t)
  case 0
  then have "cap TYPE('a word) k \<le> current_max_size t"
    by (simp add: tree_inv_def cap_mono)
  with assms(3) show ?case
    by (subst move_max_size.simps) simp
next
  case (Suc d)
  show ?case
  proof (cases "current_max_size t \<le> idx")
    case False
    then show ?thesis
      by (subst move_max_size.simps) simp
  next
    case True
    have cms: "current_max_size t = cap TYPE('a word) (levels t + 2)"
      using Suc.prems by (simp add: tree_inv_def)
    have "levels t + 2 < k"
    proof (rule ccontr)
      assume "\<not> levels t + 2 < k"
      then have "cap TYPE('a word) k \<le> cap TYPE('a word) (levels t + 2)"
        by (simp add: cap_mono)
      with True assms(3) cms show False
        by simp
    qed
    then have "cap TYPE('a word) (Suc (levels t + 2)) \<le> cap TYPE('a word) k"
      by (simp add: cap_mono)
    with assms(4) have "current_max_size t * LENGTH('a) < 2 ^ 64"
      by (simp add: cms cap_Suc mult.commute)
    with Suc.prems assms(2) obtain t' where t': "new_root t = Some t'" "grows_to t t'"
      "levels t' = Suc (levels t)"
      by (rule new_root_grows)
    from t'(2) have "tree_inv t'"
      by (simp add: grows_to_def)
    moreover have "d = k - levels t'"
      using Suc.hyps(2) t'(3) by simp
    ultimately obtain y where "move_max_size t' idx = Some y"
      using Suc.hyps(1) by blast
    with True t'(1) show ?thesis
      by (subst move_max_size.simps) simp
  qed
qed

subsection \<open>\<^verbatim>\<open>allocate_at\<close> on a tree that satisfies the invariant\<close>

lemma allocate_at_loop_out_of_range:
  assumes "cap TYPE('a word) (Suc h) \<le> idx"
  shows "allocate_at_loop (n :: 'a::len word node_t) (cap TYPE('a word) (Suc h)) lvl idx a = None"
proof -
  have "LENGTH('a) * cap TYPE('a word) h \<le> idx"
    using assms by (simp add: cap_Suc)
  then have "LENGTH('a) \<le> idx div cap TYPE('a word) h"
    by (simp add: less_eq_div_iff_mult_less_eq)
  then show ?thesis
    by (subst allocate_at_loop.simps) (simp add: Let_def)
qed

text \<open>The descent of \<^verbatim>\<open>allocate_at\<close> on a tree that satisfies the invariant.\<close>

lemma descend_inv:
  fixes u :: "'a::len word tree_t"
  assumes inv: "tree_inv u"
    and loop: "allocate_at_loop (root u) (current_max_size u) (levels u) idx
                 (allocated_resources u) = Some (r, a)"
  shows "idx < current_max_size u"
    and "tree_inv (u\<lparr>root := r, allocated_resources := a\<rparr>)"
    and "is_allocated (u\<lparr>root := r, allocated_resources := a\<rparr>) j =
           (if j = idx then Some True else is_allocated u j)"
    and "a = (if is_allocated u idx = Some True then allocated_resources u
              else allocated_resources u + 1)"
    and "nodes r \<le> nodes (root u) + Suc (levels u)"
    and "is_allocated u idx = Some True \<Longrightarrow> r = root u"
proof -
  let ?h = "Suc (levels u)"
  let ?C = "cap TYPE('a word) (Suc ?h)"
  let ?u = "u\<lparr>root := r, allocated_resources := a\<rparr>"
  let ?S = "{i. is_allocated u i = Some True}"
  have cms: "current_max_size u = ?C" and small: "current_max_size u < 2 ^ 64"
    and sh: "shape ?h (root u)" and ub: "unset_branches (root u) = Some (NOT 0)"
    and cnt: "allocated_resources u = card ?S"
    using inv by (simp_all add: tree_inv_def)
  have lvl: "0 < ?h \<longrightarrow> levels u = ?h - 1"
    by simp
  note loop' = loop [unfolded cms]
  show idx: "idx < current_max_size u"
  proof (rule ccontr)
    assume "\<not> idx < current_max_size u"
    then have "?C \<le> idx"
      by (simp add: cms)
    then show False
      using loop' by (simp add: allocate_at_loop_out_of_range)
  qed
  then have idx': "idx < ?C"
    by (simp add: cms)
  obtain n' a' where "allocate_at_loop (root u) ?C (levels u) idx (allocated_resources u) = Some (n', a')"
    and "shape ?h n'" and "unset_branches n' = unset_branches (root u)"
    using allocate_at_loop_Some [OF sh idx' lvl] by blast
  with loop' have sh': "shape ?h r" and ub': "unset_branches r = Some (NOT 0)"
    by (simp_all add: ub)
  have look: "is_allocated ?u j = (if j = idx then Some True else is_allocated u j)" for j
  proof (cases "j < current_max_size u")
    case True
    then show ?thesis
      using allocate_at_loop_lookup [OF sh idx' lvl loop', of j]
      by (simp add: is_allocated_def cms)
  next
    case False
    with idx show ?thesis
      by (auto simp add: is_allocated_def)
  qed
  then show "is_allocated ?u j = (if j = idx then Some True else is_allocated u j)" .
  have a: "a = (if is_allocated u idx = Some True then allocated_resources u
                else u64 (allocated_resources u + 1))"
    using allocate_at_loop_count [OF sh idx' lvl loop'] idx
    by (simp add: is_allocated_def cms)
  have S': "{i. is_allocated ?u i = Some True} = insert idx ?S"
    by (auto simp add: look)
  have fin: "finite ?S"
    by (rule finite_allocated)
  have less: "card ?S < current_max_size u" if "idx \<notin> ?S"
  proof -
    have "?S \<subseteq> {..<current_max_size u} - {idx}"
      using that by (auto dest: is_allocated_bound)
    then have "card ?S \<le> card ({..<current_max_size u} - {idx})"
      by (rule card_mono [rotated]) simp
    also have "\<dots> < current_max_size u"
      using idx by simp
    finally show ?thesis .
  qed
  show a': "a = (if is_allocated u idx = Some True then allocated_resources u
              else allocated_resources u + 1)"
  proof (cases "is_allocated u idx = Some True")
    case True
    with a show ?thesis
      by simp
  next
    case False
    then have "card ?S < current_max_size u"
      using less by simp
    with small have "u64 (allocated_resources u + 1) = allocated_resources u + 1"
      by (simp add: cnt u64_def)
    with a False show ?thesis
      by simp
  qed
  have "a = card (insert idx ?S)"
    using a' fin by (auto simp add: cnt card_insert_if)
  also have "\<dots> = card {i. is_allocated ?u i = Some True}"
    by (simp only: S')
  finally have "allocated_resources ?u = card {i. is_allocated ?u i = Some True}"
    by simp
  then show "tree_inv ?u"
    unfolding tree_inv_def using cms small sh' ub' by simp
  show "nodes r \<le> nodes (root u) + Suc (levels u)"
    using allocate_at_loop_nodes [OF sh idx' lvl loop'] .
  show "r = root u" if "is_allocated u idx = Some True"
  proof -
    from that idx have "is_allocated_loop (root u) ?C idx = Some True"
      by (simp add: is_allocated_def cms)
    from allocate_at_loop_noop [OF sh idx' lvl this, of "allocated_resources u"] loop'
    show ?thesis
      by simp
  qed
qed

text \<open>The parts of a returning call of \<^verbatim>\<open>allocate_at\<close>.\<close>

lemma allocate_at_E:
  fixes t :: "'a::len word tree_t"
  assumes "allocate_at t idx = Some t'"
  obtains u r a where
    "if current_max_size t \<le> idx then move_max_size t (to_T TYPE('a word) idx) = Some u else u = t"
    "allocate_at_loop (root u) (current_max_size u) (levels u) idx (allocated_resources u) = Some (r, a)"
    "t' = u\<lparr>root := r, allocated_resources := a\<rparr>"
  using assms unfolding allocate_at_def
  by (auto split: option.splits if_splits)

lemma allocate_at_grows:
  fixes t :: "'a::len word tree_t"
  assumes inv: "tree_inv t" and ui: "unsigned_integral TYPE('a word)"
    and al: "allocate_at t idx = Some t'"
  obtains u r a where "grows_to t u"
    "allocate_at_loop (root u) (current_max_size u) (levels u) idx (allocated_resources u) = Some (r, a)"
    "t' = u\<lparr>root := r, allocated_resources := a\<rparr>"
proof -
  from al obtain u r a where
    u: "if current_max_size t \<le> idx then move_max_size t (to_T TYPE('a word) idx) = Some u else u = t"
    and loop: "allocate_at_loop (root u) (current_max_size u) (levels u) idx (allocated_resources u) = Some (r, a)"
    and t': "t' = u\<lparr>root := r, allocated_resources := a\<rparr>"
    by (rule allocate_at_E)
  have "grows_to t u"
  proof (cases "current_max_size t \<le> idx")
    case True
    with u have "move_max_size t (to_T TYPE('a word) idx) = Some u"
      by simp
    from move_max_size_partial [OF this] inv ui show ?thesis
      by simp
  next
    case False
    with u inv show ?thesis
      by (simp add: grows_to_refl)
  qed
  then show ?thesis
    using loop t' by (rule that)
qed

text \<open>What a returning call of \<^verbatim>\<open>allocate_at\<close> establishes.\<close>

lemma allocate_at_post:
  fixes t :: "'a::len word tree_t"
  assumes inv: "tree_inv t" and ui: "unsigned_integral TYPE('a word)"
    and al: "allocate_at t idx = Some t'"
  shows "tree_inv t'"
    and "idx < current_max_size t'"
    and "is_allocated t' j = (if j = idx then Some True else is_allocated t j)"
    and "allocated_resources t' =
           (if is_allocated t idx = Some True then allocated_resources t
            else allocated_resources t + 1)"
    and "levels t \<le> levels t'"
    and "current_max_size t \<le> current_max_size t'"
    and "nodes (root t') \<le> nodes (root t) + (levels t' - levels t) + Suc (levels t')"
proof -
  from inv ui al obtain u r a where g: "grows_to t u"
    and loop: "allocate_at_loop (root u) (current_max_size u) (levels u) idx (allocated_resources u) = Some (r, a)"
    and t': "t' = u\<lparr>root := r, allocated_resources := a\<rparr>"
    by (rule allocate_at_grows)
  from g have invu: "tree_inv u" and l: "levels t \<le> levels u"
    and c: "current_max_size t \<le> current_max_size u"
    and n: "nodes (root u) = nodes (root t) + (levels u - levels t)"
    and ar: "allocated_resources u = allocated_resources t"
    and look: "is_allocated u i = is_allocated t i" for i
    by (simp_all add: grows_to_def)
  note d = descend_inv [OF invu loop]
  show "tree_inv t'"
    using d(2) by (simp add: t')
  show "idx < current_max_size t'"
    using d(1) by (simp add: t')
  show "is_allocated t' j = (if j = idx then Some True else is_allocated t j)"
    using d(3) [of j] by (simp add: t' look)
  show "allocated_resources t' =
           (if is_allocated t idx = Some True then allocated_resources t
            else allocated_resources t + 1)"
    using d(4) by (simp add: t' look ar)
  show "levels t \<le> levels t'"
    using l by (simp add: t')
  show "current_max_size t \<le> current_max_size t'"
    using c by (simp add: t')
  show "nodes (root t') \<le> nodes (root t) + (levels t' - levels t) + Suc (levels t')"
    using d(5) n by (simp add: t')
qed

text \<open>Within the range the tree can grow to, \<^verbatim>\<open>allocate_at\<close> returns.\<close>

lemma allocate_at_total:
  fixes t :: "'a::len word tree_t"
  assumes inv: "tree_inv t" and ui: "unsigned_integral TYPE('a word)"
    and T: "idx < 2 ^ LENGTH('a)"
    and k: "idx < LENGTH('a) ^ k" "LENGTH('a) ^ k < 2 ^ 64"
  shows "\<exists>t'. allocate_at t idx = Some t'"
proof -
  have toT: "to_T TYPE('a word) idx = idx"
    using T by (simp add: to_T_def)
  have "\<exists>u. (if current_max_size t \<le> idx then move_max_size t (to_T TYPE('a word) idx) else Some t) = Some u
           \<and> tree_inv u \<and> idx < current_max_size u"
  proof (cases "current_max_size t \<le> idx")
    case True
    from inv ui k obtain u where u: "move_max_size t idx = Some u"
      using move_max_size_total [of t idx k] by (auto simp add: cap_def)
    from move_max_size_partial [OF this] inv ui have "tree_inv u" "idx < current_max_size u"
      by (simp_all add: grows_to_def)
    with True u show ?thesis
      by (simp add: toT)
  next
    case False
    with inv show ?thesis
      by simp
  qed
  then obtain u where u: "(if current_max_size t \<le> idx then move_max_size t (to_T TYPE('a word) idx) else Some t) = Some u"
    and invu: "tree_inv u" and idx: "idx < current_max_size u"
    by blast
  from invu have cms: "current_max_size u = cap TYPE('a word) (Suc (Suc (levels u)))"
    and sh: "shape (Suc (levels u)) (root u)"
    by (simp_all add: tree_inv_def)
  have "\<exists>n' a'. allocate_at_loop (root u) (cap TYPE('a word) (Suc (Suc (levels u)))) (levels u) idx
          (allocated_resources u) = Some (n', a') \<and> shape (Suc (levels u)) n' \<and>
          unset_branches n' = unset_branches (root u)"
    using sh idx unfolding cms by (rule allocate_at_loop_Some) simp
  then obtain n' a' where "allocate_at_loop (root u) (current_max_size u) (levels u) idx
          (allocated_resources u) = Some (n', a')"
    unfolding cms by blast
  with u show ?thesis
    unfolding allocate_at_def by simp
qed

subsection \<open>Reachable trees satisfy the invariant\<close>

lemma unsigned_integral_sq:
  assumes "unsigned_integral TYPE('a::len word)"
  shows "LENGTH('a) * LENGTH('a) < 2 ^ 64"
  using assms by (auto simp add: unsigned_integral_def)

lemma is_allocated_new:
  "is_allocated (tree_t_new :: 'a::len word tree_t) i \<noteq> Some True"
proof (cases "i < LENGTH('a) * LENGTH('a)")
  case True
  have m: "u64 (LENGTH('a) * LENGTH('a)) \<le> LENGTH('a) * LENGTH('a)"
    by (simp add: u64_def)
  show ?thesis
  proof (cases "u64 (LENGTH('a) * LENGTH('a)) \<le> i")
    case True
    then show ?thesis
      by (simp add: is_allocated_def tree_t_new_def)
  next
    case False
    then show ?thesis
      by (subst is_allocated_def, subst is_allocated_loop.simps)
        (auto simp add: tree_t_new_def init_leaf_def Let_def test_bit_T_iff bit_ones)
  qed
next
  case False
  moreover have "u64 (LENGTH('a) * LENGTH('a)) \<le> LENGTH('a) * LENGTH('a)"
    by (simp add: u64_def)
  ultimately show ?thesis
    by (simp add: is_allocated_def tree_t_new_def)
qed

lemma tree_inv_new:
  assumes "unsigned_integral TYPE('a::len word)"
  shows "tree_inv (tree_t_new :: 'a word tree_t)"
proof -
  have "{i. is_allocated (tree_t_new :: 'a word tree_t) i = Some True} = {}"
    using is_allocated_new by blast
  then have "card {i. is_allocated (tree_t_new :: 'a word tree_t) i = Some True} = 0"
    by (simp only: card.empty)
  moreover have "u64 (LENGTH('a) * LENGTH('a)) = LENGTH('a) * LENGTH('a)"
    using unsigned_integral_sq [OF assms] by (rule u64_id)
  ultimately show ?thesis
    unfolding tree_inv_def using unsigned_integral_sq [OF assms]
    by (simp add: tree_t_new_def init_leaf_def cap_def power2_eq_square)
qed

lemma step_inv:
  assumes "step t t'" "tree_inv t" "unsigned_integral TYPE('a::len word)"
  shows "tree_inv (t' :: 'a word tree_t)"
  using assms
proof cases
  case (step_allocate_at idx)
  with assms(2,3) show ?thesis
    by (simp add: allocate_at_post(1))
next
  case (step_allocate idx)
  with assms(2) show ?thesis
    by (simp add: allocate_def)
next
  case (step_deallocate idx)
  with assms(2) show ?thesis
    by (simp add: deallocate_def)
qed

lemma steps_inv:
  assumes "step\<^sup>*\<^sup>* t t'" "tree_inv t" "unsigned_integral TYPE('a::len word)"
  shows "tree_inv (t' :: 'a word tree_t)"
  using assms by (induction rule: rtranclp_induct) (auto intro: step_inv)

lemma reachable_inv:
  "reachable t \<Longrightarrow> unsigned_integral TYPE('a::len word) \<Longrightarrow> tree_inv (t :: 'a word tree_t)"
  unfolding reachable_def by (rule steps_inv [OF _ tree_inv_new])

lemma reachable_new: "reachable tree_t_new"
  by (simp add: reachable_def)

lemma reachable_step: "reachable t \<Longrightarrow> step t t' \<Longrightarrow> reachable t'"
  unfolding reachable_def by (rule rtranclp.rtrancl_into_rtrancl)

lemma step_capacity:
  assumes "step t t'" "tree_inv t" "unsigned_integral TYPE('a::len word)"
  shows "current_max_size t \<le> current_max_size (t' :: 'a word tree_t)"
  using assms
proof cases
  case (step_allocate_at idx)
  with assms(2,3) show ?thesis
    by (simp add: allocate_at_post(6))
next
  case (step_allocate idx)
  then show ?thesis
    by (simp add: allocate_def)
next
  case (step_deallocate idx)
  then show ?thesis
    by (simp add: deallocate_def)
qed

lemma steps_capacity:
  assumes "step\<^sup>*\<^sup>* t t'" "tree_inv t" "unsigned_integral TYPE('a::len word)"
  shows "current_max_size t \<le> current_max_size (t' :: 'a word tree_t)"
  using assms
proof (induction rule: rtranclp_induct)
  case base
  show ?case by simp
next
  case (step y z)
  then have "tree_inv y"
    by (simp add: steps_inv)
  with step show ?case
    using step_capacity [of y z] by simp
qed

lemma is_allocated_loop_spec:
  assumes "shape h (n :: 'a::len word node_t)" "idx < cap TYPE('a word) (Suc h)"
  shows "is_allocated_loop n (cap TYPE('a word) (Suc h)) idx =
           Some (case leaf_bit_on_path h n idx of None \<Rightarrow> False | Some b \<Rightarrow> \<not> b)"
  using assms
proof (induction h arbitrary: n idx)
  case 0
  then obtain ub bs where n: "n = Leaf ub bs" "length bs = LENGTH('a)"
    by (cases n) simp_all
  with 0 show ?case
    by (simp add: is_allocated_loop_Leaf)
next
  case (Suc k)
  let ?M = "cap TYPE('a word) (Suc k)"
  have M: "LENGTH('a) ^ Suc k = ?M"
    by (simp add: cap_def)
  show ?case
  proof (cases n)
    case (Leaf ub bs)
    with Suc.prems have "Suc k \<le> 1" "length bs = LENGTH('a)"
      by (simp_all add: shape_Leaf_iff)
    with Suc.prems(2) show ?thesis
      unfolding Leaf leaf_bit_on_path.simps M
      by (simp add: is_allocated_loop_Leaf)
  next
    case (Internal ub ab brs)
    have len: "length brs = LENGTH('a)"
      using Suc.prems(1) Internal by simp
    have b: "idx div ?M < LENGTH('a)"
      using Suc.prems(2) by (rule bucket_less)
    show ?thesis
    proof (cases "bit ab (idx div ?M)")
      case False
      with len Suc.prems(2) show ?thesis
        unfolding Internal leaf_bit_on_path.simps M
        by (simp add: is_allocated_loop_Internal)
    next
      case True
      with Suc.prems(1) b obtain c where c: "brs ! (idx div ?M) = Some c" "shape k c"
        unfolding Internal by (auto simp add: test_bit_T_iff split: option.splits)
      have "is_allocated_loop c ?M (idx mod ?M) =
              Some (case leaf_bit_on_path k c (idx mod ?M) of None \<Rightarrow> False | Some b \<Rightarrow> \<not> b)"
        using c(2) by (rule Suc.IH) simp
      with True c(1) len Suc.prems(2) show ?thesis
        unfolding Internal leaf_bit_on_path.simps M
        by (simp add: is_allocated_loop_Internal)
    qed
  qed
qed

lemma allocate_at_each_post:
  fixes t :: "'a::len word tree_t"
  assumes "tree_inv t" "unsigned_integral TYPE('a word)"
    and "\<And>i. i \<in> set idxs \<Longrightarrow> i < LENGTH('a) * LENGTH('a)"
  shows "\<exists>t'. allocate_at_each t idxs = Some t' \<and> tree_inv t' \<and>
           levels t' = levels t \<and> current_max_size t' = current_max_size t \<and>
           (\<forall>j. is_allocated t' j = (if j \<in> set idxs then Some True else is_allocated t j))"
  using assms
proof (induction idxs arbitrary: t)
  case Nil
  then show ?case by simp
next
  case (Cons i idxs)
  have cms: "current_max_size t = cap TYPE('a word) (levels t + 2)"
    using Cons.prems(1) by (simp add: tree_inv_def)
  have "cap TYPE('a word) 2 \<le> cap TYPE('a word) (levels t + 2)"
    by (rule cap_mono) simp
  moreover have i: "i < cap TYPE('a word) 2"
    using Cons.prems(3) [of i] by (simp add: cap_def power2_eq_square)
  ultimately have small: "i < current_max_size t"
    by (simp add: cms)
  have sh: "shape (Suc (levels t)) (root t)"
    using Cons.prems(1) by (simp add: tree_inv_def)
  obtain n' a' where loop: "allocate_at_loop (root t) (current_max_size t) (levels t) i
      (allocated_resources t) = Some (n', a')"
    using allocate_at_loop_Some [OF sh, of i "levels t" "allocated_resources t"] small
    by (auto simp add: cms)
  with small have al: "allocate_at t i = Some (t\<lparr>root := n', allocated_resources := a'\<rparr>)"
    by (simp add: allocate_at_def)
  let ?t = "t\<lparr>root := n', allocated_resources := a'\<rparr>"
  have inv': "tree_inv ?t"
    and look: "is_allocated ?t j = (if j = i then Some True else is_allocated t j)" for j
    using allocate_at_post(1,3) [OF Cons.prems(1,2) al] by simp_all
  from Cons.IH [OF inv' Cons.prems(2)] Cons.prems(3)
  obtain t' where "allocate_at_each ?t idxs = Some t'" "tree_inv t'" "levels t' = levels ?t"
    "current_max_size t' = current_max_size ?t"
    "\<forall>j. is_allocated t' j = (if j \<in> set idxs then Some True else is_allocated ?t j)"
    by auto
  with al show ?case
    by (simp add: look)
qed

subsection \<open>Examples used below\<close>

lemma ui64: "unsigned_integral TYPE(64 word)"
  by (simp add: unsigned_integral_def)

lemma cap64: "cap TYPE(64 word) h = 2 ^ (6 * h)"
  by (simp add: cap_def power_mult)

lemma example_in_range:
  "(10000000000::nat) < 2 ^ LENGTH(64)" "(10000000000::nat) < LENGTH(64) ^ 6"
  "LENGTH(64) ^ 6 < (2::nat) ^ 64"
  by simp_all

lemma example_allocate_at:
  "\<exists>t'. allocate_at (tree_t_new :: 64 word tree_t) 10000000000 = Some t'"
  by (rule allocate_at_total [OF tree_inv_new [OF ui64] ui64 example_in_range])

lemma small_allocate_at:
  "\<exists>t'. allocate_at (tree_t_new :: 64 word tree_t) 5 = Some t'"
  by (rule allocate_at_total [OF tree_inv_new [OF ui64] ui64, where k = 2]) simp_all

text \<open>A second \<^verbatim>\<open>allocate_at\<close> of an allocated index returns the tree it was given.\<close>

lemma allocate_at_noop:
  fixes t :: "'a::len word tree_t"
  assumes inv: "tree_inv t" and al: "is_allocated t idx = Some True"
  shows "allocate_at t idx = Some t"
proof -
  have idx: "idx < current_max_size t"
    using al by (rule is_allocated_bound)
  have cms: "current_max_size t = cap TYPE('a word) (Suc (Suc (levels t)))"
    and sh: "shape (Suc (levels t)) (root t)"
    using inv by (simp_all add: tree_inv_def)
  have "is_allocated_loop (root t) (cap TYPE('a word) (Suc (Suc (levels t)))) idx = Some True"
    using al idx by (simp add: is_allocated_def cms)
  with sh idx have "allocate_at_loop (root t) (cap TYPE('a word) (Suc (Suc (levels t)))) (levels t) idx
      (allocated_resources t) = Some (root t, allocated_resources t)"
    unfolding cms by (intro allocate_at_loop_noop) simp_all
  with idx show ?thesis
    by (simp add: allocate_at_def cms)
qed

text \<open>
  On a reachable tree, and on the trees turns of the loop of \<^verbatim>\<open>move_max_size\<close> make of
  one, the root's \<^verbatim>\<open>unset_branches\<close> is all-ones: no code path clears a bit of it.
\<close>

lemma wrapped_root_all_ones:
  fixes t :: "'a::len word tree_t"
  assumes "reachable t0" and "unsigned_integral TYPE('a word)" and "wrap\<^sup>*\<^sup>* t0 t"
  shows "unset_branches (root t) = Some (NOT 0)"
  using assms(3)
proof (induction rule: rtranclp_induct)
  case base
  show ?case
    using reachable_inv [OF assms(1,2)] by (simp add: tree_inv_def)
next
  case (step y z)
  then show ?case
    by (auto simp add: wrap_def new_root_def)
qed

text \<open>When the capacity has wrapped around to zero, \<^verbatim>\<open>move_max_size\<close> does not return.\<close>

lemma move_max_size_zero_capacity:
  "current_max_size t = 0 \<Longrightarrow> move_max_size t idx = None"
  using move_max_size_partial [of t idx] by (cases "move_max_size t idx") auto


lemma allocate_at_each_reachable:
  "reachable t \<Longrightarrow> allocate_at_each t idxs = Some t' \<Longrightarrow> reachable t'"
proof (induction idxs arbitrary: t)
  case Nil
  then show ?case by simp
next
  case (Cons i idxs)
  from Cons.prems(2) obtain u where u: "allocate_at t i = Some u"
    and rest: "allocate_at_each u idxs = Some t'"
    by (auto split: option.splits)
  from Cons.prems(1) u have "reachable u"
    by (blast intro: reachable_step step_allocate_at)
  then show ?case
    using rest by (rule Cons.IH)
qed

section \<open>The claims\<close>

text \<open>
  Claim C1: in every reachable tree, a node's free-summary bit for branch \<open>i\<close> is 1
  exactly when the subtree of that branch holds an unallocated index, and every
  \<^verbatim>\<open>allocate_at\<close> restores this. The code does not: \<^verbatim>\<open>allocate_at\<close> never writes
  \<^verbatim>\<open>unset_branches\<close>. On a fresh 64-bit tree, after \<^verbatim>\<open>allocate_at\<close> of the indices 0 to 63
  (all of branch 0 of the root), the root's word is still all-ones: bit 0 is set although
  branch 0 holds no free index.
\<close>

theorem allocate_at_leaves_summary_stale:
  "\<exists>t. allocate_at_each (tree_t_new :: 64 word tree_t) [0..<64] = Some t \<and>
       reachable t \<and> unset_branches (root t) = Some (NOT 0) \<and>
       \<not> branch_has_free t 0 \<and> \<not> root_summary_ok t"
proof -
  have "\<exists>t'. allocate_at_each (tree_t_new :: 64 word tree_t) [0..<64] = Some t' \<and> tree_inv t' \<and>
           levels t' = levels (tree_t_new :: 64 word tree_t) \<and>
           current_max_size t' = current_max_size (tree_t_new :: 64 word tree_t) \<and>
           (\<forall>j. is_allocated t' j =
              (if j \<in> set [0..<64] then Some True else is_allocated (tree_t_new :: 64 word tree_t) j))"
    by (rule allocate_at_each_post [OF tree_inv_new [OF ui64] ui64]) simp
  then obtain t where t: "allocate_at_each (tree_t_new :: 64 word tree_t) [0..<64] = Some t"
    and inv: "tree_inv t" and cms: "current_max_size t = 4096"
    and look: "\<And>j. j < 64 \<Longrightarrow> is_allocated t j = Some True"
    by (auto simp add: tree_t_new_def u64_def)
  from inv have ub: "unset_branches (root t) = Some (NOT 0)"
    by (simp add: tree_inv_def)
  have nf: "\<not> branch_has_free t 0"
    by (simp add: branch_has_free_def cms list_ex_iff look)
  have "test_bit_T (NOT 0 :: 64 word) 0"
    by (simp add: test_bit_T_iff)
  with nf have "\<not> root_summary_ok t"
    by (auto simp add: root_summary_ok_def ub list_all_iff)
  moreover have "reachable t"
    using reachable_new t by (rule allocate_at_each_reachable)
  ultimately show ?thesis
    using t ub nf by blast
qed

text \<open>
  Claim C2: \<^verbatim>\<open>allocate()\<close> returns the smallest index that was not allocated and marks
  it allocated, the count growing by one. The code's \<^verbatim>\<open>allocate\<close> is \<^verbatim>\<open>return T();\<close>: on a
  fresh 64-bit tree it returns 0, and afterwards index 0 is still not allocated and the
  count is still 0.
\<close>

theorem allocate_returns_zero_and_marks_nothing:
  "allocate (tree_t_new :: 64 word tree_t) = (0, tree_t_new) \<and>
   is_allocated (snd (allocate (tree_t_new :: 64 word tree_t))) 0 = Some False \<and>
   allocated_resources (snd (allocate (tree_t_new :: 64 word tree_t))) = 0"
  by (simp add: allocate_def is_allocated_def tree_t_new_def init_leaf_def u64_def
      is_allocated_loop.simps [of "Leaf _ _"] test_bit_T_iff)

text \<open>
  Claim C3: after \<^verbatim>\<open>deallocate(idx)\<close> the index is not allocated, and the count drops by
  one if it was. The code's \<^verbatim>\<open>deallocate\<close> has an empty body: on a 64-bit tree in which
  index 5 was allocated, index 5 is still allocated after \<^verbatim>\<open>deallocate(5)\<close> and the count
  is still 1.
\<close>

theorem deallocate_leaves_index_allocated:
  "\<exists>t. allocate_at (tree_t_new :: 64 word tree_t) 5 = Some t \<and>
       is_allocated (deallocate t 5) 5 = Some True \<and>
       allocated_resources (deallocate t 5) = 1"
proof -
  obtain t where t: "allocate_at (tree_t_new :: 64 word tree_t) 5 = Some t"
    using small_allocate_at by blast
  note post = allocate_at_post [OF tree_inv_new [OF ui64] ui64 t]
  from post(3) [of 5] post(4) is_allocated_new [of 5, where 'a = 64] t show ?thesis
    by (simp add: deallocate_def tree_t_new_def)
qed




text \<open>
  Claim C5, as amended: on a reachable tree, for every index that the word type \<^verbatim>\<open>T\<close>
  can hold and that lies below a power of the branching factor that fits 64 bits
  (below \<open>2 ^ 60\<close> for 64-bit words, below \<open>2 ^ 32\<close> for 32-bit words), \<^verbatim>\<open>allocate_at(idx)\<close>
  returns, and \<^verbatim>\<open>is_allocated(idx)\<close> is true immediately afterwards.
\<close>

theorem allocate_at_is_allocated:
  fixes t :: "'a::len word tree_t"
  assumes "reachable t" and "unsigned_integral TYPE('a word)"
    and "idx < 2 ^ LENGTH('a)" and "idx < LENGTH('a) ^ k" and "LENGTH('a) ^ k < 2 ^ 64"
  shows "\<exists>t'. allocate_at t idx = Some t' \<and> is_allocated t' idx = Some True"
proof -
  have inv: "tree_inv t"
    using assms(1,2) by (rule reachable_inv)
  then obtain t' where t': "allocate_at t idx = Some t'"
    using allocate_at_total [OF _ assms(2-5)] by blast
  from allocate_at_post(3) [OF inv assms(2) t', of idx] t' show ?thesis
    by simp
qed

theorem allocate_at_is_allocated_witness:
  "\<exists>t'. allocate_at (tree_t_new :: 64 word tree_t) 10000000000 = Some t' \<and>
        is_allocated t' 10000000000 = Some True"
  using allocate_at_is_allocated [OF reachable_new ui64 example_in_range] .

text \<open>
  The claim as stated, for every index, fails at \<open>2 ^ 60\<close> on a fresh 64-bit tree: the
  capacity grows from \<open>2 ^ 12\<close> to \<open>2 ^ 60\<close>, the next product \<open>2 ^ 66\<close> wraps around to 0,
  and \<^verbatim>\<open>current_max_size <= idx\<close> holds from then on, so the call does not return.
\<close>

theorem allocate_at_2_60_does_not_return:
  "allocate_at (tree_t_new :: 64 word tree_t) (2 ^ 60) = None"
proof (rule ccontr)
  assume "allocate_at (tree_t_new :: 64 word tree_t) (2 ^ 60) \<noteq> None"
  then obtain t' where t': "allocate_at (tree_t_new :: 64 word tree_t) (2 ^ 60) = Some t'"
    by blast
  note post = allocate_at_post [OF tree_inv_new [OF ui64] ui64 t']
  from post(1) have "current_max_size t' = 2 ^ (6 * (levels t' + 2))"
    and "current_max_size t' < 2 ^ 64"
    by (simp_all add: tree_inv_def cap64)
  with post(2) have lo: "(2::nat) ^ 60 < 2 ^ (6 * (levels t' + 2))"
    and hi: "(2::nat) ^ (6 * (levels t' + 2)) < 2 ^ 64"
    by simp_all
  have "60 < 6 * (levels t' + 2)"
    using lo by (rule power_less_imp_less_exp [rotated]) simp
  moreover have "6 * (levels t' + 2) < 64"
    using hi by (rule power_less_imp_less_exp [rotated]) simp
  ultimately show False
    by arith
qed

text \<open>
  Claim C6, as amended: when \<^verbatim>\<open>allocate_at(idx)\<close> returns on a reachable tree, a second
  \<^verbatim>\<open>allocate_at(idx)\<close> returns the tree unchanged, and the count after the two calls is
  the count before plus 1 when \<open>idx\<close> was free before the first call, and the count
  before when it was allocated already. Two calls of \<^verbatim>\<open>deallocate(idx)\<close> change the count
  by at most 1 and do not make it negative.
\<close>

theorem allocate_at_twice:
  fixes t :: "'a::len word tree_t"
  assumes "reachable t" and "unsigned_integral TYPE('a word)"
    and "allocate_at t idx = Some t1"
  shows "allocate_at t1 idx = Some t1 \<and>
         allocated_resources t1 =
           (if is_allocated t idx = Some True then allocated_resources t
            else allocated_resources t + 1) \<and>
         allocated_resources (deallocate (deallocate t d) d) \<le> allocated_resources t \<and>
         allocated_resources t \<le> allocated_resources (deallocate (deallocate t d) d) + 1"
proof -
  have inv: "tree_inv t"
    using assms(1,2) by (rule reachable_inv)
  note post = allocate_at_post [OF inv assms(2,3)]
  from post(3) [of idx] have "is_allocated t1 idx = Some True"
    by simp
  with post(1) have "allocate_at t1 idx = Some t1"
    by (rule allocate_at_noop)
  with post(4) show ?thesis
    by (simp add: deallocate_def)
qed

theorem allocate_at_twice_witness:
  "\<exists>t1. allocate_at (tree_t_new :: 64 word tree_t) 5 = Some t1 \<and>
     allocate_at t1 5 = Some t1 \<and> allocated_resources t1 = 1 \<and>
     allocated_resources (deallocate (deallocate (tree_t_new :: 64 word tree_t) 5) 5) = 0"
proof -
  obtain t1 where t1: "allocate_at (tree_t_new :: 64 word tree_t) 5 = Some t1"
    using small_allocate_at by blast
  from allocate_at_twice [OF reachable_new ui64 t1, of 5] t1 is_allocated_new [of 5, where 'a = 64]
  show ?thesis
    by (simp add: tree_t_new_def)
qed

text \<open>
  The claim as stated, a change of exactly 1 from every starting state, fails where the
  index is allocated already: on the 64-bit tree in which index 5 is allocated the count
  is 1, and after two more calls of \<^verbatim>\<open>allocate_at(5)\<close> it is 1, a change of 0.
\<close>

theorem allocate_at_twice_on_allocated_index:
  "map_option allocated_resources (allocate_at_each (tree_t_new :: 64 word tree_t) [5]) = Some 1 \<and>
   map_option allocated_resources (allocate_at_each (tree_t_new :: 64 word tree_t) [5, 5, 5]) = Some 1"
proof -
  obtain t1 where t1: "allocate_at (tree_t_new :: 64 word tree_t) 5 = Some t1"
    using small_allocate_at by blast
  note post = allocate_at_post [OF tree_inv_new [OF ui64] ui64 t1]
  from post(3) [of 5] have "is_allocated t1 5 = Some True"
    by simp
  with post(1) have "allocate_at t1 5 = Some t1"
    by (rule allocate_at_noop)
  moreover from post(4) is_allocated_new [of 5, where 'a = 64] have "allocated_resources t1 = 1"
    by (simp add: tree_t_new_def)
  ultimately show ?thesis
    using t1 by simp
qed

text \<open>
  Claim C7: the capacity of a reachable tree is \<open>B ^ (levels + 2)\<close>; it is \<open>B ^ 2\<close> with
  zero levels in the tree the constructor builds, and no sequence of operations on a
  reachable tree decreases it.
\<close>

theorem capacity_power_of_branching_factor:
  fixes t :: "'a::len word tree_t"
  assumes "reachable t" and "unsigned_integral TYPE('a word)" and "step\<^sup>*\<^sup>* t t'"
  shows "current_max_size (tree_t_new :: 'a word tree_t) = LENGTH('a) ^ 2 \<and>
         levels (tree_t_new :: 'a word tree_t) = 0 \<and>
         current_max_size t = LENGTH('a) ^ (levels t + 2) \<and>
         current_max_size t \<le> current_max_size t'"
proof -
  have inv: "tree_inv t"
    using assms(1,2) by (rule reachable_inv)
  have "u64 (LENGTH('a) * LENGTH('a)) = LENGTH('a) * LENGTH('a)"
    using unsigned_integral_sq [OF assms(2)] by (rule u64_id)
  then have "current_max_size (tree_t_new :: 'a word tree_t) = LENGTH('a) ^ 2"
    by (simp add: tree_t_new_def power2_eq_square)
  moreover have "current_max_size t = LENGTH('a) ^ (levels t + 2)"
    using inv by (simp add: tree_inv_def cap_def)
  moreover have "current_max_size t \<le> current_max_size t'"
    using assms(3) inv assms(2) by (rule steps_capacity)
  ultimately show ?thesis
    by (simp add: tree_t_new_def)
qed

theorem capacity_power_of_branching_factor_witness:
  "\<exists>t'. allocate_at (tree_t_new :: 64 word tree_t) 10000000000 = Some t' \<and>
     current_max_size (tree_t_new :: 64 word tree_t) = 4096 \<and>
     current_max_size t' = 64 ^ (levels t' + 2) \<and>
     current_max_size (tree_t_new :: 64 word tree_t) \<le> current_max_size t'"
proof -
  obtain t' where t': "allocate_at (tree_t_new :: 64 word tree_t) 10000000000 = Some t'"
    using example_allocate_at by blast
  then have s: "step tree_t_new t'"
    by (rule step_allocate_at)
  then have r: "reachable t'"
    by (rule reachable_step [OF reachable_new])
  from s have "step\<^sup>*\<^sup>* tree_t_new t'"
    by (rule r_into_rtranclp)
  from capacity_power_of_branching_factor [OF reachable_new ui64 this]
    capacity_power_of_branching_factor [OF r ui64 rtranclp.rtrancl_refl] t'
  show ?thesis
    by simp
qed

text \<open>
  Claim C8: \<^verbatim>\<open>is_allocated(idx)\<close> returns false when the index is at or beyond the
  capacity or when a branch on its path is unmaterialised, and otherwise the negation of
  the leaf bit; it raises no error (the result is \<open>Some\<close>) and, being a function of the
  tree that returns the answer only, leaves the tree as it is.
\<close>

theorem is_allocated_refines_spec:
  fixes t :: "'a::len word tree_t"
  assumes "reachable t" and "unsigned_integral TYPE('a word)"
  shows "is_allocated t idx = Some (is_allocated_spec t idx)"
proof -
  have inv: "tree_inv t"
    using assms by (rule reachable_inv)
  then have cms: "current_max_size t = cap TYPE('a word) (Suc (Suc (levels t)))"
    and sh: "shape (Suc (levels t)) (root t)"
    by (simp_all add: tree_inv_def)
  show ?thesis
  proof (cases "current_max_size t \<le> idx")
    case True
    then show ?thesis
      by (simp add: is_allocated_def is_allocated_spec_def)
  next
    case False
    then have "idx < cap TYPE('a word) (Suc (Suc (levels t)))"
      by (simp add: cms)
    with sh have "is_allocated_loop (root t) (cap TYPE('a word) (Suc (Suc (levels t)))) idx =
        Some (case leaf_bit_on_path (Suc (levels t)) (root t) idx of None \<Rightarrow> False | Some b \<Rightarrow> \<not> b)"
      by (rule is_allocated_loop_spec)
    with False show ?thesis
      by (simp add: is_allocated_def is_allocated_spec_def cms)
  qed
qed

theorem is_allocated_refines_spec_witness:
  "\<exists>t'. allocate_at (tree_t_new :: 64 word tree_t) 10000000000 = Some t' \<and>
     is_allocated t' 10000000000 = Some (is_allocated_spec t' 10000000000) \<and>
     is_allocated t' 7 = Some (is_allocated_spec t' 7)"
proof -
  obtain t' where t': "allocate_at (tree_t_new :: 64 word tree_t) 10000000000 = Some t'"
    using example_allocate_at by blast
  then have "reachable t'"
    by (intro reachable_step [OF reachable_new] step_allocate_at)
  from is_allocated_refines_spec [OF this ui64] t' show ?thesis
    by simp
qed



text \<open>
  Claim C10: \<^verbatim>\<open>allocate_at(idx)\<close> changes the allocation status of no other index: for
  every \<open>j\<close> other than \<open>idx\<close>, \<^verbatim>\<open>is_allocated(j)\<close> is the same before and after the call,
  also when the call grows the tree or creates nodes.
\<close>

theorem allocate_at_frame:
  fixes t :: "'a::len word tree_t"
  assumes "reachable t" and "unsigned_integral TYPE('a word)"
    and "allocate_at t idx = Some t'" and "j \<noteq> idx"
  shows "is_allocated t' j = is_allocated t j"
  using allocate_at_post(3) [OF reachable_inv [OF assms(1,2)] assms(2,3), of j] assms(4) by simp

theorem allocate_at_frame_witness:
  "\<exists>t'. allocate_at (tree_t_new :: 64 word tree_t) 10000000000 = Some t' \<and>
     is_allocated t' 5 = is_allocated (tree_t_new :: 64 word tree_t) 5"
proof -
  obtain t' where t': "allocate_at (tree_t_new :: 64 word tree_t) 10000000000 = Some t'"
    using example_allocate_at by blast
  have "(5::nat) \<noteq> 10000000000"
    by simp
  from allocate_at_frame [OF reachable_new ui64 t' this] t' show ?thesis
    by simp
qed

end
